theory Spec2Isabelle
  imports Main
begin

section \<open>Errors\<close>

text \<open>
  Go errors of the orchestration core. \<open>Errorf m\<close> is \<^verbatim>\<open>fmt.Errorf\<close> without a
  \<^verbatim>\<open>%w\<close> verb (or a collaborator's error), carrying its formatted message;
  \<open>Wrapf p e\<close> is \<^verbatim>\<open>fmt.Errorf(p + "%w", e)\<close>, the text before the verb and the
  wrapped error (\<open>None\<close> for a nil error); \<open>Canceled\<close> and \<open>DeadlineExceeded\<close> are
  the two values \<^verbatim>\<open>ctx.Err()\<close> takes once a context is done.
\<close>

datatype error =
    Errorf string
  | Wrapf string "error option"
  | Canceled
  | DeadlineExceeded

text \<open>The text of an error (its \<^verbatim>\<open>Error()\<close> method).\<close>

fun error_message :: "error \<Rightarrow> string" where
  "error_message (Errorf m) = m"
| "error_message (Wrapf p None) = p @ ''%!w(<nil>)''"
| "error_message (Wrapf p (Some e)) = p @ error_message e"
| "error_message Canceled = ''context canceled''"
| "error_message DeadlineExceeded = ''context deadline exceeded''"

section \<open>pkg/config/config.go\<close>

text \<open>
  The configuration structs, with the fields the orchestration core reads. The fields
  \<^verbatim>\<open>Volumes\<close>, \<^verbatim>\<open>Environment\<close>, \<^verbatim>\<open>Ports\<close> and \<^verbatim>\<open>RestartPolicy\<close> of a unit are only
  copied into the container specification handed to the runtime and are left out.
  Go's \<^verbatim>\<open>int\<close> is \<open>int\<close>.
\<close>

record HealthCheck =
  hc_Type :: string
  hc_Path :: string
  hc_Port :: int
  hc_Interval :: int
  hc_Timeout :: int
  hc_Retries :: int
  hc_StartPeriod :: int

record Service =
  svc_Name :: string
  svc_Image :: string
  svc_DependsOn :: "string list"
  svc_HealthCheck :: HealthCheck

record App =
  app_Name :: string
  app_Image :: string
  app_Subdomain :: string
  app_Path :: string
  app_DependsOn :: "string list"
  app_HealthCheck :: HealthCheck

record SSLConfig =
  ssl_Enabled :: bool
  ssl_Email :: string
  ssl_SelfSigned :: bool
  ssl_DNSChallenge :: bool
  ssl_DNSProvider :: string

record Config =
  cfg_Version :: string
  cfg_Domain :: string
  cfg_SSL :: SSLConfig
  cfg_Services :: "Service list"
  cfg_Apps :: "App list"
  cfg_Timeout :: int

section \<open>pkg/deployment/dependencies.go\<close>

text \<open>
  \<^verbatim>\<open>dependencies map[string][]string\<close> is an association list whose first binding of
  a key is the current one; reading a missing key gives the nil slice.
\<close>

type_synonym depmap = "(string \<times> string list) list"

definition lookup_deps :: "depmap \<Rightarrow> string \<Rightarrow> string list" where
  "lookup_deps dependencies name =
     (case map_of dependencies name of None \<Rightarrow> [] | Some ds \<Rightarrow> ds)"

text \<open>
  The variables captured by the \<^verbatim>\<open>visit\<close> closure. A \<^verbatim>\<open>map[string]bool\<close> reads
  \<^verbatim>\<open>false\<close> at a missing key, so it is a total function to \<open>bool\<close>.
\<close>

record dfs =
  visited :: "string \<Rightarrow> bool"
  temp :: "string \<Rightarrow> bool"
  order :: "string list"

text \<open>
  \<open>visit\<close> is the closure of \<^verbatim>\<open>resolveDependencyOrder\<close>; \<open>visit_deps\<close> is its loop
  \<^verbatim>\<open>for _, dep := range dependencies[name]\<close>, which returns at the first error.
\<close>

function visit :: "depmap \<Rightarrow> string \<Rightarrow> dfs \<Rightarrow> error + dfs"
  and visit_deps :: "depmap \<Rightarrow> string list \<Rightarrow> dfs \<Rightarrow> error + dfs"
where
  "visit dependencies name s =
     (if temp s name
      then Inl (Errorf (''cycle detected in dependencies involving '' @ name))
      else if visited s name then Inr s
      else (case visit_deps dependencies (lookup_deps dependencies name)
                   (s\<lparr>temp := (temp s)(name := True)\<rparr>) of
              Inl err \<Rightarrow> Inl err
            | Inr s' \<Rightarrow>
                Inr (s'\<lparr>visited := (visited s')(name := True),
                         temp := (temp s')(name := False),
                         order := order s' @ [name]\<rparr>)))"
| "visit_deps dependencies [] s = Inr s"
| "visit_deps dependencies (dep # deps) s =
     (case visit dependencies dep s of
        Inl err \<Rightarrow> Inl err
      | Inr s' \<Rightarrow> visit_deps dependencies deps s')"
  by pat_completeness auto

text \<open>
  Termination: a successful visit leaves \<open>temp\<close> as it found it, so along the
  recursion the number of keys of the map that are not marked \<open>temp\<close> never grows, and
  it shrinks when a key is entered.
\<close>

lemma visit_temp_partial:
  "visit_visit_deps_dom (Inl (D, name, s)) \<Longrightarrow> visit D name s = Inr s' \<Longrightarrow> temp s' = temp s"
  "visit_visit_deps_dom (Inr (D, ds, s)) \<Longrightarrow> visit_deps D ds s = Inr s' \<Longrightarrow> temp s' = temp s"
proof (induction D name s and D ds s arbitrary: s' and s' rule: visit_visit_deps.pinduct)
  case (1 D name s)
  note dom = "1.hyps"
  show ?case
  proof (cases "temp s name \<or> visited s name")
    case True
    with "1.prems" dom show ?thesis
      by (simp add: visit.psimps split: if_splits)
  next
    case False
    then obtain s1 where
      s1: "visit_deps D (lookup_deps D name) (s\<lparr>temp := (temp s)(name := True)\<rparr>) = Inr s1"
      and s': "s' = s1\<lparr>visited := (visited s1)(name := True),
                        temp := (temp s1)(name := False),
                        order := order s1 @ [name]\<rparr>"
      using "1.prems" dom by (simp add: visit.psimps split: sum.splits)
    have "temp s1 = temp (s\<lparr>temp := (temp s)(name := True)\<rparr>)"
      using "1.IH" False s1 by blast
    with s' False show ?thesis by (auto simp: fun_eq_iff)
  qed
next
  case (2 D s)
  then show ?case by (simp add: visit_deps.psimps)
next
  case (3 D dep deps s)
  from "3.prems" "3.hyps" obtain s1 where s1: "visit D dep s = Inr s1"
    and s': "visit_deps D deps s1 = Inr s'"
    by (simp add: visit_deps.psimps split: sum.splits)
  from "3.IH"(1)[OF s1] "3.IH"(2)[OF s1 s'] show ?case by simp
qed

definition pending :: "depmap \<Rightarrow> dfs \<Rightarrow> nat" where
  "pending D s = card {k \<in> fst ` set D. \<not> temp s k}"

termination visit
proof (relation "inv_image (less_than <*lex*> less_than)
    (\<lambda>x. case x of Inl (D, name, s) \<Rightarrow> (pending D s, 1::nat)
                  | Inr (D, ds, s) \<Rightarrow> (pending D s, 2 * length ds))", goal_cases)
  case 1
  show ?case by auto
next
  case (2 dependencies name s)
  show ?case
  proof (cases "name \<in> fst ` set dependencies")
    case True
    have "{k \<in> fst ` set dependencies. \<not> ((temp s)(name := True)) k}
          \<subset> {k \<in> fst ` set dependencies. \<not> temp s k}"
      using True 2 by auto
    then have "pending dependencies (s\<lparr>temp := (temp s)(name := True)\<rparr>)
               < pending dependencies s"
      unfolding pending_def by (simp add: psubset_card_mono)
    then show ?thesis by simp
  next
    case False
    then have "map_of dependencies name = None"
      by (simp add: map_of_eq_None_iff)
    moreover have "{k \<in> fst ` set dependencies. \<not> ((temp s)(name := True)) k}
          = {k \<in> fst ` set dependencies. \<not> temp s k}"
      using False by auto
    ultimately show ?thesis
      by (simp add: lookup_deps_def pending_def)
  qed
next
  case (3 dependencies dep deps s)
  then show ?case by simp
next
  case (4 dependencies dep deps s x2)
  then have "temp x2 = temp s"
    using visit_temp_partial(1) by blast
  then show ?case by (simp add: pending_def)
qed

text \<open>
  The loop \<^verbatim>\<open>for _, name := range names\<close> of \<^verbatim>\<open>resolveDependencyOrder\<close>, with its
  test \<^verbatim>\<open>!visited[name]\<close>.
\<close>

fun visit_all :: "depmap \<Rightarrow> string list \<Rightarrow> dfs \<Rightarrow> error + dfs" where
  "visit_all dependencies [] s = Inr s"
| "visit_all dependencies (name # names) s =
     (if \<not> visited s name
      then (case visit dependencies name s of
              Inl err \<Rightarrow> Inl err
            | Inr s' \<Rightarrow> visit_all dependencies names s')
      else visit_all dependencies names s)"

text \<open>
  The closing loop of \<^verbatim>\<open>resolveDependencyOrder\<close> swaps \<^verbatim>\<open>order[i]\<close> and
  \<^verbatim>\<open>order[j]\<close> for \<^verbatim>\<open>i, j := 0, len(order)-1\<close> while \<^verbatim>\<open>i < j\<close>. The indices
  are Go \<^verbatim>\<open>int\<close>s: \<open>j\<close> is \<open>-1\<close> on the empty slice.
\<close>

function reverse_loop :: "int \<Rightarrow> int \<Rightarrow> string list \<Rightarrow> string list" where
  "reverse_loop i j xs =
     (if i < j
      then reverse_loop (i + 1) (j - 1) (xs[nat i := xs ! nat j, nat j := xs ! nat i])
      else xs)"
  by pat_completeness auto
termination
  by (relation "measure (\<lambda>(i, j, xs). nat (j - i))") auto

declare reverse_loop.simps [simp del]

definition empty_dfs :: dfs where
  "empty_dfs = \<lparr>visited = (\<lambda>_. False), temp = (\<lambda>_. False), order = []\<rparr>"

definition resolveDependencyOrder :: "string list \<Rightarrow> depmap \<Rightarrow> error + string list" where
  "resolveDependencyOrder names dependencies =
     (case visit_all dependencies names empty_dfs of
        Inl err \<Rightarrow> Inl err
      | Inr s \<Rightarrow> Inr (reverse_loop 0 (int (length (order s)) - 1) (order s)))"


text \<open>
  \<^verbatim>\<open>resolveServiceDependencies\<close> and \<^verbatim>\<open>resolveAppDependencies\<close> are the same text on
  the two unit types; \<open>resolve_units\<close> is that text, with the unit's \<^verbatim>\<open>Name\<close> and
  \<^verbatim>\<open>DependsOn\<close> fields as parameters. Its first loop fills \<^verbatim>\<open>names\<close>,
  \<^verbatim>\<open>nameToIndex\<close> (a later unit of the same name overwrites the index) and
  \<^verbatim>\<open>dependencies\<close> (likewise). The last loop reads \<^verbatim>\<open>units[nameToIndex[name]]\<close>,
  where a missing key of the \<^verbatim>\<open>map[string]int\<close> reads 0.
\<close>

fun index_names :: "string list \<Rightarrow> nat \<Rightarrow> (string \<rightharpoonup> nat) \<Rightarrow> (string \<rightharpoonup> nat)" where
  "index_names [] i nameToIndex = nameToIndex"
| "index_names (name # names) i nameToIndex =
     index_names names (i + 1) (nameToIndex(name \<mapsto> i))"

definition unit_index :: "('u \<Rightarrow> string) \<Rightarrow> 'u list \<Rightarrow> string \<Rightarrow> nat" where
  "unit_index name_of units name =
     (case index_names (map name_of units) 0 Map.empty name of None \<Rightarrow> 0 | Some i \<Rightarrow> i)"

definition unit_graph :: "('u \<Rightarrow> string) \<Rightarrow> ('u \<Rightarrow> string list) \<Rightarrow> 'u list \<Rightarrow> depmap" where
  "unit_graph name_of deps_of units =
     fold (\<lambda>u dependencies. (name_of u, deps_of u) # dependencies) units []"

definition resolve_units ::
  "('u \<Rightarrow> string) \<Rightarrow> ('u \<Rightarrow> string list) \<Rightarrow> 'u list \<Rightarrow> error + 'u list" where
  "resolve_units name_of deps_of units =
     (case resolveDependencyOrder (map name_of units) (unit_graph name_of deps_of units) of
        Inl err \<Rightarrow> Inl err
      | Inr sortedNames \<Rightarrow>
          Inr (map (\<lambda>name. units ! unit_index name_of units name) sortedNames))"

definition resolveServiceDependencies :: "Service list \<Rightarrow> error + Service list" where
  "resolveServiceDependencies services = resolve_units svc_Name svc_DependsOn services"

definition resolveAppDependencies :: "App list \<Rightarrow> error + App list" where
  "resolveAppDependencies apps = resolve_units app_Name app_DependsOn apps"

text \<open>
  The dependency graph of a map: an edge from each name to each of its dependencies.
\<close>

definition dep_edge :: "depmap \<Rightarrow> (string \<times> string) set" where
  "dep_edge D = {(a, b). b \<in> set (lookup_deps D a)}"

text \<open>
  \<open>deps_first D xs\<close>: every dependency of an element of \<open>xs\<close> stands at an earlier
  position of \<open>xs\<close>. \<open>dfs_inv\<close> is the invariant of the traversal: \<open>order\<close> lists the
  visited names once each, dependencies first.
\<close>

definition deps_first :: "depmap \<Rightarrow> string list \<Rightarrow> bool" where
  "deps_first D xs \<longleftrightarrow> (\<forall>i < length xs. set (lookup_deps D (xs ! i)) \<subseteq> set (take i xs))"

definition dfs_inv :: "depmap \<Rightarrow> dfs \<Rightarrow> bool" where
  "dfs_inv D s \<longleftrightarrow>
     distinct (order s) \<and> (\<forall>n. visited s n = (n \<in> set (order s))) \<and> deps_first D (order s)"

section \<open>pkg/config/validation.go\<close>

text \<open>
  The verb \<^verbatim>\<open>%d\<close> of \<^verbatim>\<open>fmt\<close>: the decimal digits of an integer, with a minus sign
  when it is negative.
\<close>

definition digit_char :: "nat \<Rightarrow> char" where
  "digit_char n = ''0123456789'' ! n"

function fmt_nat :: "nat \<Rightarrow> string" where
  "fmt_nat n = (if n < 10 then [digit_char n] else fmt_nat (n div 10) @ [digit_char (n mod 10)])"
  by pat_completeness auto
termination
  by (relation "measure id") auto

declare fmt_nat.simps [simp del]

definition fmt_d :: "int \<Rightarrow> string" where
  "fmt_d i = (if i < 0 then ''-'' @ fmt_nat (nat (- i)) else fmt_nat (nat i))"

text \<open>
  \<^verbatim>\<open>normalizePath\<close>: \<^verbatim>\<open>strings.HasPrefix(path, "/")\<close> is \<open>take 1 path = ''/''\<close>,
  \<^verbatim>\<open>strings.HasSuffix(path, "/")\<close> is \<open>path \<noteq> [] \<and> last path = CHR ''/''\<close>, and
  \<^verbatim>\<open>path[:len(path)-1]\<close> is \<open>butlast path\<close>.
\<close>

definition normalizePath :: "string \<Rightarrow> string" where
  "normalizePath path =
     (let path = (if \<not> take 1 path = ''/'' then ''/'' @ path else path)
      in if path \<noteq> ''/'' \<and> path \<noteq> [] \<and> last path = CHR ''/'' then butlast path else path)"

text \<open>
  The loop over a service's \<^verbatim>\<open>DependsOn\<close>; \<open>serviceNames\<close> holds the names of the
  services validated so far, this one included.
\<close>

fun validate_service_deps :: "(string \<Rightarrow> bool) \<Rightarrow> string \<Rightarrow> string list \<Rightarrow> error option" where
  "validate_service_deps serviceNames name [] = None"
| "validate_service_deps serviceNames name (dep # deps) =
     (if \<not> serviceNames dep
      then Some (Errorf (''service '' @ name @ '' depends on undefined service: '' @ dep))
      else validate_service_deps serviceNames name deps)"

text \<open>The loop \<^verbatim>\<open>for i, service := range config.Services\<close>.\<close>

fun validate_services ::
  "Service list \<Rightarrow> nat \<Rightarrow> (string \<Rightarrow> bool) \<Rightarrow> error + (string \<Rightarrow> bool)" where
  "validate_services [] i serviceNames = Inr serviceNames"
| "validate_services (service # services) i serviceNames =
     (if svc_Name service = []
      then Inl (Errorf (''service at index '' @ fmt_d (int i) @ '' is missing a name''))
      else if serviceNames (svc_Name service)
      then Inl (Errorf (''duplicate service name: '' @ svc_Name service))
      else let serviceNames = serviceNames(svc_Name service := True) in
        if svc_Image service = []
        then Inl (Errorf (''service '' @ svc_Name service @ '' is missing an image''))
        else (case validate_service_deps serviceNames (svc_Name service)
                     (svc_DependsOn service) of
                Some err \<Rightarrow> Inl err
              | None \<Rightarrow> validate_services services (i + 1) serviceNames))"

text \<open>The loop over an app's \<^verbatim>\<open>DependsOn\<close>.\<close>

fun validate_app_deps ::
  "(string \<Rightarrow> bool) \<Rightarrow> (string \<Rightarrow> bool) \<Rightarrow> string \<Rightarrow> string list \<Rightarrow> error option" where
  "validate_app_deps serviceNames appNames name [] = None"
| "validate_app_deps serviceNames appNames name (dep # deps) =
     (if \<not> serviceNames dep \<and> \<not> appNames dep
      then Some (Errorf (''app '' @ name @ '' depends on undefined service or app: '' @ dep))
      else validate_app_deps serviceNames appNames name deps)"

text \<open>
  The loop \<^verbatim>\<open>for i, app := range config.Apps\<close>, with its three maps \<^verbatim>\<open>appNames\<close>,
  \<^verbatim>\<open>subdomains\<close> and \<^verbatim>\<open>paths\<close>.
\<close>

record seen_apps =
  appNames :: "string \<Rightarrow> bool"
  subdomains :: "string \<Rightarrow> bool"
  paths :: "string \<Rightarrow> bool"

fun validate_apps ::
  "(string \<Rightarrow> bool) \<Rightarrow> App list \<Rightarrow> nat \<Rightarrow> seen_apps \<Rightarrow> error option" where
  "validate_apps serviceNames [] i seen = None"
| "validate_apps serviceNames (app # apps) i seen =
     (if app_Name app = []
      then Some (Errorf (''app at index '' @ fmt_d (int i) @ '' is missing a name''))
      else if appNames seen (app_Name app)
      then Some (Errorf (''duplicate app name: '' @ app_Name app))
      else let seen = seen\<lparr>appNames := (appNames seen)(app_Name app := True)\<rparr> in
        if app_Image app = []
        then Some (Errorf (''app '' @ app_Name app @ '' is missing an image''))
        else if app_Subdomain app \<noteq> [] \<and> subdomains seen (app_Subdomain app)
        then Some (Errorf (''duplicate subdomain: '' @ app_Subdomain app))
        else let seen = (if app_Subdomain app \<noteq> []
                         then seen\<lparr>subdomains := (subdomains seen)(app_Subdomain app := True)\<rparr>
                         else seen) in
          if app_Path app \<noteq> [] \<and> paths seen (normalizePath (app_Path app))
          then Some (Errorf (''duplicate path: '' @ app_Path app))
          else let seen = (if app_Path app \<noteq> []
                           then seen\<lparr>paths := (paths seen)(normalizePath (app_Path app) := True)\<rparr>
                           else seen) in
            (case validate_app_deps serviceNames (appNames seen) (app_Name app)
                    (app_DependsOn app) of
               Some err \<Rightarrow> Some err
             | None \<Rightarrow> validate_apps serviceNames apps (i + 1) seen))"

definition validate_ssl :: "SSLConfig \<Rightarrow> error option" where
  "validate_ssl ssl =
     (if ssl_Enabled ssl
      then (if \<not> ssl_SelfSigned ssl \<and> ssl_Email ssl = []
            then Some (Errorf ''SSL email is required when using Let's Encrypt'')
            else if ssl_DNSChallenge ssl \<and> ssl_DNSProvider ssl = []
            then Some (Errorf ''DNS provider is required when using DNS challenge'')
            else None)
      else None)"

definition Validate :: "Config \<Rightarrow> error option" where
  "Validate config =
     (if cfg_Version config = [] then Some (Errorf ''config version is required'')
      else if cfg_Domain config = [] then Some (Errorf ''domain is required'')
      else (case validate_services (cfg_Services config) 0 (\<lambda>_. False) of
              Inl err \<Rightarrow> Some err
            | Inr serviceNames \<Rightarrow>
                (case validate_apps serviceNames (cfg_Apps config) 0
                        \<lparr>appNames = (\<lambda>_. False), subdomains = (\<lambda>_. False),
                         paths = (\<lambda>_. False)\<rparr> of
                   Some err \<Rightarrow> Some err
                 | None \<Rightarrow> validate_ssl (cfg_SSL config))))"

text \<open>
  What the validation checks apart from the dependencies (\<open>well_formed\<close>), and what it
  checks of the dependencies (\<open>deps_resolved\<close>): a service's dependency names the
  service itself or a service declared before it; an app's dependency names a declared
  service, the app itself or an app declared before it.
\<close>

definition well_formed :: "Config \<Rightarrow> bool" where
  "well_formed config \<longleftrightarrow>
     cfg_Version config \<noteq> [] \<and> cfg_Domain config \<noteq> []
     \<and> (\<forall>s \<in> set (cfg_Services config). svc_Name s \<noteq> [] \<and> svc_Image s \<noteq> [])
     \<and> distinct (map svc_Name (cfg_Services config))
     \<and> (\<forall>a \<in> set (cfg_Apps config). app_Name a \<noteq> [] \<and> app_Image a \<noteq> [])
     \<and> distinct (map app_Name (cfg_Apps config))
     \<and> distinct (filter (\<lambda>s. s \<noteq> []) (map app_Subdomain (cfg_Apps config)))
     \<and> distinct (map normalizePath (filter (\<lambda>p. p \<noteq> []) (map app_Path (cfg_Apps config))))
     \<and> validate_ssl (cfg_SSL config) = None"

fun service_deps_resolved :: "string set \<Rightarrow> Service list \<Rightarrow> bool" where
  "service_deps_resolved earlier [] = True"
| "service_deps_resolved earlier (service # services) =
     (set (svc_DependsOn service) \<subseteq> insert (svc_Name service) earlier
      \<and> service_deps_resolved (insert (svc_Name service) earlier) services)"

fun app_deps_resolved :: "string set \<Rightarrow> string set \<Rightarrow> App list \<Rightarrow> bool" where
  "app_deps_resolved serviceNames earlier [] = True"
| "app_deps_resolved serviceNames earlier (app # apps) =
     (set (app_DependsOn app) \<subseteq> serviceNames \<union> insert (app_Name app) earlier
      \<and> app_deps_resolved serviceNames (insert (app_Name app) earlier) apps)"

definition deps_resolved :: "Config \<Rightarrow> bool" where
  "deps_resolved config \<longleftrightarrow>
     service_deps_resolved {} (cfg_Services config)
     \<and> app_deps_resolved (set (map svc_Name (cfg_Services config))) {} (cfg_Apps config)"

section \<open>Time, contexts and collaborators\<close>

text \<open>
  A \<^verbatim>\<open>time.Duration\<close> is an \<^verbatim>\<open>int64\<close> count of nanoseconds: \<open>wrap64\<close> is the
  wrap-around of its arithmetic, \<open>quot\<close> Go's integer division (truncated toward zero).
\<close>

definition wrap64 :: "int \<Rightarrow> int" where
  "wrap64 x = (x + 9223372036854775808) mod 18446744073709551616 - 9223372036854775808"

definition quot :: "int \<Rightarrow> int \<Rightarrow> int" where
  "quot a b = sgn a * sgn b * (\<bar>a\<bar> div \<bar>b\<bar>)"

definition Second :: int where
  "Second = 1000000000"

text \<open>
  A \<^verbatim>\<open>context.Context\<close>: the instant (on the clock below) from which its
  \<^verbatim>\<open>Done()\<close> channel is closed, if ever, and whether that is a deadline or a
  cancellation.
\<close>

record Context =
  ctx_done_at :: "int option"
  ctx_deadline :: bool

definition ctx_Err :: "Context \<Rightarrow> error" where
  "ctx_Err ctx = (if ctx_deadline ctx then DeadlineExceeded else Canceled)"

definition ctx_done :: "Context \<Rightarrow> int \<Rightarrow> bool" where
  "ctx_done ctx t = (case ctx_done_at ctx of None \<Rightarrow> False | Some c \<Rightarrow> c \<le> t)"

text \<open>
  What the program does to the world, in order: waits and calls of collaborators (a call
  is recorded whether or not it succeeds).
\<close>

datatype event =
    TimerFired int
  | ContextDone
  | Slept int
  | CheckedHTTP string nat
  | CheckedTCP string nat
  | Requested string int
  | Pulled string
  | Created string
  | Started string
  | Stopped string
  | Removed string

text \<open>
  The \<^verbatim>\<open>Deployment\<close> record of the manager (the fields copied from the unit's
  configuration without being read again are left out), and the state the core works on:
  the clock, the events so far, and the registry \<^verbatim>\<open>m.deployments\<close>.
\<close>

record Deployment =
  dep_Name :: string
  dep_ContainerID :: string
  dep_Image :: string
  dep_ServiceType :: string
  dep_DependsOn :: "string list"

record state =
  clock :: int
  trace :: "event list"
  deployments :: "string \<rightharpoonup> Deployment"

text \<open>
  The answers of the collaborators: the network (health probes by host and attempt, HTTP
  requests by URL and attempt, each with the time it takes) and the container runtime.
\<close>

datatype http_result = TransportError error | Status int

record env =
  checkHTTP_result :: "string \<Rightarrow> nat \<Rightarrow> error option"
  checkTCP_result :: "string \<Rightarrow> nat \<Rightarrow> error option"
  probe_latency :: "string \<Rightarrow> nat \<Rightarrow> int"
  new_request :: "string \<Rightarrow> error option"
  response :: "string \<Rightarrow> int \<Rightarrow> http_result"
  request_latency :: "string \<Rightarrow> int \<Rightarrow> int"
  pull_image :: "string \<Rightarrow> error option"
  create_container :: "string \<Rightarrow> error + string"
  start_container :: "string \<Rightarrow> error option"
  stop_container :: "string \<Rightarrow> error option"
  remove_container :: "string \<Rightarrow> error option"


text \<open>\<^verbatim>\<open>time.Sleep(d)\<close> does not look at any context.\<close>

definition sleep :: "int \<Rightarrow> state \<Rightarrow> state" where
  "sleep d s = s\<lparr>clock := clock s + max 0 d, trace := trace s @ [Slept d]\<rparr>"

section \<open>The health checker (package health)\<close>

record CheckOptions =
  co_Type :: string
  co_Host :: string
  co_Port :: int
  co_Path :: string
  co_Timeout :: int
  co_Interval :: int
  co_Retries :: int
  co_StartPeriod :: int






section \<open>pkg/end/external.go\<close>

text \<open>
  The loop \<^verbatim>\<open>for attempt := 1; attempt <= maxAttempts; attempt++\<close> of
  \<^verbatim>\<open>checkEndpoint\<close>, with its variable \<^verbatim>\<open>waitTime\<close>, and the statement after it.
\<close>

function endpoint_loop ::
  "Context \<Rightarrow> env \<Rightarrow> string \<Rightarrow> int \<Rightarrow> int \<Rightarrow> int \<Rightarrow> state \<Rightarrow> error option \<times> state" where
  "endpoint_loop ctx env url maxAttempts attempt waitTime s =
     (if attempt \<le> maxAttempts
      then (if ctx_done ctx (clock s) then (Some (ctx_Err ctx), s)
            else (case new_request env url of
                    Some err \<Rightarrow> (Some err, s)
                  | None \<Rightarrow>
                      (let s1 = s\<lparr>clock := clock s + max 0 (request_latency env url attempt),
                                  trace := trace s @ [Requested url attempt]\<rparr>
                       in case response env url attempt of
                            TransportError err \<Rightarrow>
                              endpoint_loop ctx env url maxAttempts (attempt + 1)
                                (wrap64 (waitTime + quot waitTime 2)) (sleep waitTime s1)
                          | Status code \<Rightarrow>
                              if code \<ge> 200 \<and> code < 300 then (None, s1)
                              else endpoint_loop ctx env url maxAttempts (attempt + 1)
                                     (wrap64 (waitTime + quot waitTime 2))
                                     (sleep waitTime s1))))
      else (Some (Errorf (''endpoint verification failed after '' @ fmt_d maxAttempts
                          @ '' attempts'')), s))"
  by pat_completeness auto
termination
  by (relation "measure (\<lambda>(ctx, env, url, maxAttempts, attempt, waitTime, s).
        nat (maxAttempts + 1 - attempt))") auto

declare endpoint_loop.simps [simp del]

definition checkEndpoint ::
  "Context \<Rightarrow> env \<Rightarrow> string \<Rightarrow> int \<Rightarrow> int \<Rightarrow> state \<Rightarrow> error option \<times> state" where
  "checkEndpoint ctx env url maxAttempts initialWaitSeconds s =
     endpoint_loop ctx env url maxAttempts 1 (wrap64 (initialWaitSeconds * Second)) s"

text \<open>The URL and the health path \<^verbatim>\<open>VerifyExternalAccess\<close> computes for an app.\<close>

definition app_url :: "Config \<Rightarrow> App \<Rightarrow> string" where
  "app_url config app =
     (let protocol = (if ssl_Enabled (cfg_SSL config) then ''https'' else ''http'');
          url = (if app_Subdomain app = [] then protocol @ ''://'' @ cfg_Domain config
                 else protocol @ ''://'' @ app_Subdomain app @ ''.'' @ cfg_Domain config)
      in if app_Path app \<noteq> [] \<and> app_Path app \<noteq> ''/'' then url @ app_Path app else url)"

definition app_healthPath :: "App \<Rightarrow> string" where
  "app_healthPath app =
     (if hc_Type (app_HealthCheck app) = ''http'' \<and> hc_Path (app_HealthCheck app) \<noteq> []
      then hc_Path (app_HealthCheck app) else ''/'')"

text \<open>The loop \<^verbatim>\<open>for _, app := range v.config.Apps\<close> of \<^verbatim>\<open>VerifyExternalAccess\<close>.\<close>

fun verify_apps :: "Context \<Rightarrow> env \<Rightarrow> Config \<Rightarrow> App list \<Rightarrow> state \<Rightarrow> error option \<times> state" where
  "verify_apps ctx env config [] s = (None, s)"
| "verify_apps ctx env config (app # apps) s =
     (let url = app_url config app; healthPath = app_healthPath app; mainUrl = url
      in case checkEndpoint ctx env mainUrl 5 3 s of
           (Some err, s1) \<Rightarrow>
             (Some (Wrapf (''external verification failed for app '' @ app_Name app
                           @ '' at '' @ mainUrl @ '': '') (Some err)), s1)
         | (None, s1) \<Rightarrow>
             if healthPath \<noteq> ''/'' \<and> healthPath \<noteq> []
             then (let healthUrl = url @ healthPath
                   in case checkEndpoint ctx env healthUrl 5 3 s1 of
                        (Some err, s2) \<Rightarrow>
                          (Some (Wrapf (''health check verification failed for app ''
                                        @ app_Name app @ '' at '' @ healthUrl @ '': '')
                                   (Some err)), s2)
                      | (None, s2) \<Rightarrow> verify_apps ctx env config apps s2)
             else verify_apps ctx env config apps s1)"

definition VerifyExternalAccess :: "Context \<Rightarrow> env \<Rightarrow> Config \<Rightarrow> state \<Rightarrow> error option \<times> state" where
  "VerifyExternalAccess ctx env config s = verify_apps ctx env config (cfg_Apps config) s"

section \<open>Example units\<close>

text \<open>Units without a health check, for evaluating the definitions at concrete inputs.\<close>

definition no_health_check :: HealthCheck where
  "no_health_check = \<lparr>hc_Type = [], hc_Path = [], hc_Port = 0, hc_Interval = 0,
     hc_Timeout = 0, hc_Retries = 0, hc_StartPeriod = 0\<rparr>"

definition app_named :: "string \<Rightarrow> string list \<Rightarrow> App" where
  "app_named name deps = \<lparr>app_Name = name, app_Image = ''image'', app_Subdomain = [],
     app_Path = [], app_DependsOn = deps, app_HealthCheck = no_health_check\<rparr>"

definition service_named :: "string \<Rightarrow> string list \<Rightarrow> Service" where
  "service_named name deps = \<lparr>svc_Name = name, svc_Image = ''image'',
     svc_DependsOn = deps, svc_HealthCheck = no_health_check\<rparr>"

definition example_config :: "Service list \<Rightarrow> App list \<Rightarrow> Config" where
  "example_config services apps =
     \<lparr>cfg_Version = ''1'', cfg_Domain = ''example.com'',
      cfg_SSL = \<lparr>ssl_Enabled = False, ssl_Email = [], ssl_SelfSigned = False,
                 ssl_DNSChallenge = False, ssl_DNSProvider = []\<rparr>,
      cfg_Services = services, cfg_Apps = apps, cfg_Timeout = 0\<rparr>"

text \<open>Auxiliary predicates for the validation loops: the checks of one unit that do not
  concern its dependencies, given what the loop has seen so far.\<close>

definition services_basic :: "(string \<Rightarrow> bool) \<Rightarrow> Service list \<Rightarrow> bool" where
  "services_basic sn ss \<longleftrightarrow>
     (\<forall>s \<in> set ss. svc_Name s \<noteq> [] \<and> svc_Image s \<noteq> [] \<and> \<not> sn (svc_Name s))
     \<and> distinct (map svc_Name ss)"

definition seen_after :: "App \<Rightarrow> seen_apps \<Rightarrow> seen_apps" where
  "seen_after a seen =
     \<lparr>appNames = (appNames seen)(app_Name a := True),
      subdomains = (if app_Subdomain a \<noteq> [] then (subdomains seen)(app_Subdomain a := True)
                    else subdomains seen),
      paths = (if app_Path a \<noteq> [] then (paths seen)(normalizePath (app_Path a) := True)
               else paths seen)\<rparr>"

definition app_basic :: "seen_apps \<Rightarrow> App \<Rightarrow> bool" where
  "app_basic seen a \<longleftrightarrow>
     app_Name a \<noteq> [] \<and> app_Image a \<noteq> [] \<and> \<not> appNames seen (app_Name a)
     \<and> (app_Subdomain a \<noteq> [] \<longrightarrow> \<not> subdomains seen (app_Subdomain a))
     \<and> (app_Path a \<noteq> [] \<longrightarrow> \<not> paths seen (normalizePath (app_Path a)))"

definition apps_basic :: "seen_apps \<Rightarrow> App list \<Rightarrow> bool" where
  "apps_basic seen as \<longleftrightarrow>
     (\<forall>a \<in> set as. app_basic seen a)
     \<and> distinct (map app_Name as)
     \<and> distinct (filter (\<lambda>s. s \<noteq> []) (map app_Subdomain as))
     \<and> distinct (map normalizePath (filter (\<lambda>p. p \<noteq> []) (map app_Path as)))"

definition declared :: "Config \<Rightarrow> string set" where
  "declared config =
     set (map svc_Name (cfg_Services config)) \<union> set (map app_Name (cfg_Apps config))"

definition seen_nothing :: seen_apps where
  "seen_nothing = \<lparr>appNames = (\<lambda>_. False), subdomains = (\<lambda>_. False), paths = (\<lambda>_. False)\<rparr>"

text \<open>
  \<open>deps_declared\<close>: every dependency of a service is the name of a declared service, and
  every dependency of an app is the name of a declared service or app.
  \<open>declared_first\<close>: wherever a dependency names such a declared unit, that unit is the
  dependent itself or is declared before it. \<open>undeclared_dependency_error config e\<close>:
  \<open>e\<close> is the undefined-dependency error of a unit and of one of its dependencies that
  is declared nowhere among the units it may depend on.
\<close>

fun services_declared_first :: "string set \<Rightarrow> string set \<Rightarrow> Service list \<Rightarrow> bool" where
  "services_declared_first serviceNames earlier [] = True"
| "services_declared_first serviceNames earlier (service # services) =
     ((\<forall>d \<in> set (svc_DependsOn service).
         d \<in> serviceNames \<longrightarrow> d \<in> insert (svc_Name service) earlier)
      \<and> services_declared_first serviceNames (insert (svc_Name service) earlier) services)"

fun apps_declared_first :: "string set \<Rightarrow> string set \<Rightarrow> string set \<Rightarrow> App list \<Rightarrow> bool" where
  "apps_declared_first serviceNames allApps earlier [] = True"
| "apps_declared_first serviceNames allApps earlier (app # apps) =
     ((\<forall>d \<in> set (app_DependsOn app).
         d \<in> allApps \<longrightarrow> d \<in> serviceNames \<union> insert (app_Name app) earlier)
      \<and> apps_declared_first serviceNames allApps (insert (app_Name app) earlier) apps)"

definition declared_first :: "Config \<Rightarrow> bool" where
  "declared_first config \<longleftrightarrow>
     services_declared_first (set (map svc_Name (cfg_Services config))) {} (cfg_Services config)
     \<and> apps_declared_first (set (map svc_Name (cfg_Services config)))
          (set (map app_Name (cfg_Apps config))) {} (cfg_Apps config)"

definition deps_declared :: "Config \<Rightarrow> bool" where
  "deps_declared config \<longleftrightarrow>
     (\<forall>s \<in> set (cfg_Services config).
        set (svc_DependsOn s) \<subseteq> set (map svc_Name (cfg_Services config)))
     \<and> (\<forall>a \<in> set (cfg_Apps config). set (app_DependsOn a) \<subseteq> declared config)"

definition undeclared_dependency_error :: "Config \<Rightarrow> error \<Rightarrow> bool" where
  "undeclared_dependency_error config e \<longleftrightarrow>
     (\<exists>s \<in> set (cfg_Services config). \<exists>d \<in> set (svc_DependsOn s).
        d \<notin> set (map svc_Name (cfg_Services config))
        \<and> e = Errorf (''service '' @ svc_Name s @ '' depends on undefined service: '' @ d))
     \<or> (\<exists>a \<in> set (cfg_Apps config). \<exists>d \<in> set (app_DependsOn a).
        d \<notin> declared config
        \<and> e = Errorf (''app '' @ app_Name a @ '' depends on undefined service or app: '' @ d))"

section \<open>Runs of the health checker\<close>


definition probe_event :: "CheckOptions \<Rightarrow> nat \<Rightarrow> event" where
  "probe_event options attempt =
     (if co_Type options = ''http'' then CheckedHTTP (co_Host options) attempt
      else CheckedTCP (co_Host options) attempt)"

fun attempt_events :: "CheckOptions \<Rightarrow> nat \<Rightarrow> nat \<Rightarrow> event list" where
  "attempt_events options attempt 0 = []"
| "attempt_events options attempt (Suc m) =
     (if attempt > 0 then [TimerFired (co_Interval options)] else [])
     @ [probe_event options attempt] @ attempt_events options (Suc attempt) m"



fun is_wait :: "event \<Rightarrow> bool" where
  "is_wait (TimerFired d) = True"
| "is_wait ContextDone = True"
| "is_wait e = False"

section \<open>An example world\<close>





section \<open>Properties\<close>

subsection \<open>The closing loop reverses the slice\<close>

lemma reverse_loop_middle:
  "reverse_loop (int (length a)) (int (length a) + int (length m) - 1) (a @ m @ b)
     = a @ rev m @ b"
proof (induction "length m" arbitrary: a m b rule: less_induct)
  case less
  show ?case
  proof (cases "length m \<le> 1")
    case True
    then have "rev m = m" by (cases m) auto
    with True show ?thesis by (simp add: reverse_loop.simps)
  next
    case False
    then obtain x m' y where m: "m = x # m' @ [y]"
      by (metis One_nat_def Suc_le_eq append_butlast_last_id length_0_conv length_Cons
          list.exhaust not_less_eq_eq zero_less_Suc le0)
    have lt: "int (length a) < int (length a) + int (length m) - 1"
      using m by simp
    have j: "nat (int (length a) + int (length m) - 1) = length a + Suc (length m')"
      using m by simp
    have upd: "(a @ m @ b)[nat (int (length a)) :=
                   (a @ m @ b) ! nat (int (length a) + int (length m) - 1),
                 nat (int (length a) + int (length m) - 1) :=
                   (a @ m @ b) ! nat (int (length a))]
               = (a @ [y]) @ m' @ ([x] @ b)"
      unfolding j using m by (simp add: nth_append list_update_append)
    have "reverse_loop (int (length a)) (int (length a) + int (length m) - 1) (a @ m @ b)
          = reverse_loop (int (length a) + 1) (int (length a) + int (length m) - 1 - 1)
              ((a @ [y]) @ m' @ ([x] @ b))"
      using lt upd by (subst reverse_loop.simps) simp
    also have "int (length a) + 1 = int (length (a @ [y]))"
      by simp
    also have "int (length a) + int (length m) - 1 - 1
               = int (length (a @ [y])) + int (length m') - 1"
      using m by simp
    also have "reverse_loop (int (length (a @ [y])))
                 (int (length (a @ [y])) + int (length m') - 1)
                 ((a @ [y]) @ m' @ ([x] @ b))
               = (a @ [y]) @ rev m' @ ([x] @ b)"
      by (rule less) (simp add: m)
    finally show ?thesis using m by simp
  qed
qed

lemma reverse_loop_rev: "reverse_loop 0 (int (length xs) - 1) xs = rev xs"
  using reverse_loop_middle[of "[]" xs "[]"] by simp

lemma resolveDependencyOrder_rev:
  "resolveDependencyOrder names D =
     (case visit_all D names empty_dfs of Inl err \<Rightarrow> Inl err | Inr s \<Rightarrow> Inr (rev (order s)))"
  by (simp add: resolveDependencyOrder_def reverse_loop_rev split: sum.splits)

subsection \<open>The depth-first traversal\<close>

lemma visit_temp:
  "visit D name s = Inr s' \<Longrightarrow> temp s' = temp s"
  "visit_deps D ds s = Inr s' \<Longrightarrow> temp s' = temp s"
proof (induction D name s and D ds s arbitrary: s' and s' rule: visit_visit_deps.induct)
  case (1 D name s)
  show ?case
  proof (cases "temp s name \<or> visited s name")
    case True
    with "1.prems" show ?thesis
      by (simp split: if_splits)
  next
    case False
    then obtain s1 where
      s1: "visit_deps D (lookup_deps D name) (s\<lparr>temp := (temp s)(name := True)\<rparr>) = Inr s1"
      and s': "s' = s1\<lparr>visited := (visited s1)(name := True),
                        temp := (temp s1)(name := False),
                        order := order s1 @ [name]\<rparr>"
      using "1.prems" by (simp split: sum.splits)
    have "temp s1 = temp (s\<lparr>temp := (temp s)(name := True)\<rparr>)"
      using "1.IH" False s1 by blast
    with s' False show ?thesis by (auto simp: fun_eq_iff)
  qed
next
  case (2 D s)
  then show ?case by simp
next
  case (3 D dep deps s)
  from "3.prems" obtain s1 where s1: "visit D dep s = Inr s1"
    and s': "visit_deps D deps s1 = Inr s'"
    by (simp split: sum.splits)
  from "3.IH"(1)[OF s1] "3.IH"(2)[OF s1 s'] show ?case by simp
qed

declare visit.simps [simp del]

lemma visit_error_on_cycle:
  "visit D name s = Inl e \<Longrightarrow> (\<And>t. temp s t \<Longrightarrow> (t, name) \<in> (dep_edge D)\<^sup>+) \<Longrightarrow>
     \<exists>c. e = Errorf (''cycle detected in dependencies involving '' @ c) \<and> (c, c) \<in> (dep_edge D)\<^sup>+"
  "visit_deps D ds s = Inl e \<Longrightarrow> (\<And>t d. temp s t \<Longrightarrow> d \<in> set ds \<Longrightarrow> (t, d) \<in> (dep_edge D)\<^sup>+) \<Longrightarrow>
     \<exists>c. e = Errorf (''cycle detected in dependencies involving '' @ c) \<and> (c, c) \<in> (dep_edge D)\<^sup>+"
proof (induction D name s and D ds s arbitrary: e and e rule: visit_visit_deps.induct)
  case (1 D name s)
  show ?case
  proof (cases "temp s name")
    case True
    then have "e = Errorf (''cycle detected in dependencies involving '' @ name)"
      using "1.prems"(1) by (simp add: visit.simps)
    moreover have "(name, name) \<in> (dep_edge D)\<^sup>+"
      using True "1.prems"(2) by blast
    ultimately show ?thesis by blast
  next
    case False
    then have nv: "\<not> visited s name"
      using "1.prems"(1) by (auto simp: visit.simps)
    let ?s = "s\<lparr>temp := (temp s)(name := True)\<rparr>"
    have err: "visit_deps D (lookup_deps D name) ?s = Inl e"
      using "1.prems"(1) False nv by (simp add: visit.simps split: sum.splits)
    have "(t, d) \<in> (dep_edge D)\<^sup>+" if "temp ?s t" "d \<in> set (lookup_deps D name)" for t d
    proof -
      have edge: "(name, d) \<in> dep_edge D"
        using that(2) by (simp add: dep_edge_def)
      show ?thesis
      proof (cases "t = name")
        case True
        with edge show ?thesis by blast
      next
        case False
        with that(1) have "temp s t" by simp
        then have "(t, name) \<in> (dep_edge D)\<^sup>+" by (rule "1.prems"(2))
        with edge show ?thesis by (meson trancl.trancl_into_trancl)
      qed
    qed
    then show ?thesis
      using "1.IH"[OF False nv err] by blast
  qed
next
  case (2 D s)
  then show ?case by simp
next
  case (3 D dep deps s)
  show ?case
  proof (cases "visit D dep s")
    case (Inl e')
    then have "e' = e" using "3.prems"(1) by simp
    with Inl have "visit D dep s = Inl e" by simp
    then show ?thesis
      by (rule "3.IH"(1)) (simp add: "3.prems"(2))
  next
    case (Inr s1)
    then have err: "visit_deps D deps s1 = Inl e"
      using "3.prems"(1) by simp
    have "temp s1 = temp s" using Inr by (rule visit_temp(1))
    then show ?thesis
      using "3.IH"(2)[OF Inr err] "3.prems"(2) by simp
  qed
qed

lemma deps_first_snoc:
  "deps_first D (xs @ [n]) \<longleftrightarrow> deps_first D xs \<and> set (lookup_deps D n) \<subseteq> set xs"
proof
  assume l: "deps_first D (xs @ [n])"
  have "set (lookup_deps D (xs ! i)) \<subseteq> set (take i xs)" if "i < length xs" for i
    using l that unfolding deps_first_def
    by (metis (no_types, lifting) butlast_snoc length_append_singleton less_Suc_eq
        nth_butlast order.refl take_all take_append take_eq_Nil diff_is_0_eq' less_or_eq_imp_le append_Nil2)
  moreover have "set (lookup_deps D n) \<subseteq> set xs"
    using l unfolding deps_first_def by (metis append_eq_conv_conj length_append_singleton lessI nth_append_length)
  ultimately show "deps_first D xs \<and> set (lookup_deps D n) \<subseteq> set xs"
    by (simp add: deps_first_def)
next
  assume r: "deps_first D xs \<and> set (lookup_deps D n) \<subseteq> set xs"
  show "deps_first D (xs @ [n])"
    unfolding deps_first_def
  proof (intro allI impI)
    fix i assume "i < length (xs @ [n])"
    then consider "i < length xs" | "i = length xs" by fastforce
    then show "set (lookup_deps D ((xs @ [n]) ! i)) \<subseteq> set (take i (xs @ [n]))"
    proof cases
      case 1
      then show ?thesis using r by (simp add: deps_first_def nth_append)
    next
      case 2
      then show ?thesis using r by simp
    qed
  qed
qed

lemma dfs_inv_temp_upd: "dfs_inv D (s\<lparr>temp := f\<rparr>) = dfs_inv D s"
  by (simp add: dfs_inv_def)

lemma visit_success:
  "visit D name s = Inr s' \<Longrightarrow> dfs_inv D s \<Longrightarrow>
     dfs_inv D s' \<and> temp s' = temp s \<and> visited s' name \<and>
     (\<exists>zs. order s' = order s @ zs \<and> (\<forall>z \<in> set zs. \<not> temp s z))"
  "visit_deps D ds s = Inr s' \<Longrightarrow> dfs_inv D s \<Longrightarrow>
     dfs_inv D s' \<and> temp s' = temp s \<and> (\<forall>d \<in> set ds. visited s' d) \<and>
     (\<exists>zs. order s' = order s @ zs \<and> (\<forall>z \<in> set zs. \<not> temp s z))"
proof (induction D name s and D ds s arbitrary: s' and s' rule: visit_visit_deps.induct)
  case (1 D name s)
  have nt: "\<not> temp s name"
    using "1.prems"(1) by (auto simp: visit.simps)
  show ?case
  proof (cases "visited s name")
    case True
    then have "s' = s" using "1.prems"(1) nt by (simp add: visit.simps)
    with True "1.prems"(2) show ?thesis by simp
  next
    case False
    let ?s = "s\<lparr>temp := (temp s)(name := True)\<rparr>"
    from "1.prems"(1) nt False obtain s1 where
      s1: "visit_deps D (lookup_deps D name) ?s = Inr s1"
      and s': "s' = s1\<lparr>visited := (visited s1)(name := True),
                        temp := (temp s1)(name := False),
                        order := order s1 @ [name]\<rparr>"
      by (simp add: visit.simps split: sum.splits)
    have inv0: "dfs_inv D ?s"
      using "1.prems"(2) by (simp add: dfs_inv_temp_upd)
    from "1.IH"[OF nt False s1 inv0] obtain zs where
      inv1: "dfs_inv D s1" and t1: "temp s1 = temp ?s"
      and v1: "\<forall>d \<in> set (lookup_deps D name). visited s1 d"
      and o1: "order s1 = order ?s @ zs" and z1: "\<forall>z \<in> set zs. \<not> temp ?s z"
      by blast
    have name_zs: "name \<notin> set zs" using z1 by auto
    have name_old: "name \<notin> set (order s)"
      using False "1.prems"(2) by (simp add: dfs_inv_def)
    have name_new: "name \<notin> set (order s1)"
      using o1 name_zs name_old by simp
    have deps_in: "set (lookup_deps D name) \<subseteq> set (order s1)"
      using v1 inv1 by (auto simp: dfs_inv_def)
    have "dfs_inv D s'"
      using inv1 name_new deps_in unfolding s' dfs_inv_def
      by (auto simp: deps_first_snoc)
    moreover have "temp s' = temp s"
      using t1 nt unfolding s' by (auto simp: fun_eq_iff)
    moreover have "visited s' name" unfolding s' by simp
    moreover have "order s' = order s @ (zs @ [name])"
      unfolding s' using o1 by simp
    moreover have "\<forall>z \<in> set (zs @ [name]). \<not> temp s z"
    proof
      fix z assume z: "z \<in> set (zs @ [name])"
      show "\<not> temp s z"
      proof (cases "z = name")
        case True
        with nt show ?thesis by simp
      next
        case False
        with z have "z \<in> set zs" by simp
        with z1 have "\<not> temp ?s z" by blast
        with False show ?thesis by simp
      qed
    qed
    ultimately show ?thesis by blast
  qed
next
  case (2 D s)
  then show ?case by simp
next
  case (3 D dep deps s)
  from "3.prems"(1) obtain s1 where s1: "visit D dep s = Inr s1"
    and s': "visit_deps D deps s1 = Inr s'"
    by (simp split: sum.splits)
  from "3.IH"(1)[OF s1 "3.prems"(2)] obtain zs1 where
    inv1: "dfs_inv D s1" and t1: "temp s1 = temp s" and v1: "visited s1 dep"
    and o1: "order s1 = order s @ zs1" and z1: "\<forall>z \<in> set zs1. \<not> temp s z"
    by blast
  from "3.IH"(2)[OF s1 s' inv1] obtain zs2 where
    inv2: "dfs_inv D s'" and t2: "temp s' = temp s1" and v2: "\<forall>d \<in> set deps. visited s' d"
    and o2: "order s' = order s1 @ zs2" and z2: "\<forall>z \<in> set zs2. \<not> temp s1 z"
    by blast
  have "dep \<in> set (order s1)" using v1 inv1 by (simp add: dfs_inv_def)
  then have "visited s' dep" using o2 inv2 by (simp add: dfs_inv_def)
  moreover have "order s' = order s @ (zs1 @ zs2)" using o1 o2 by simp
  moreover have "\<forall>z \<in> set (zs1 @ zs2). \<not> temp s z" using z1 z2 t1 by auto
  ultimately show ?case using inv2 t1 t2 v2 by (metis set_ConsD)
qed

lemma visit_all_success:
  "visit_all D names s = Inr s' \<Longrightarrow> dfs_inv D s \<Longrightarrow>
     dfs_inv D s' \<and> temp s' = temp s \<and> (\<forall>n \<in> set names. visited s' n) \<and>
     set (order s) \<subseteq> set (order s')"
proof (induction names arbitrary: s)
  case Nil
  then show ?case by simp
next
  case (Cons name names)
  show ?case
  proof (cases "visited s name")
    case True
    then have "visit_all D names s = Inr s'" using Cons.prems(1) by simp
    from Cons.IH[OF this Cons.prems(2)] True Cons.prems(2) show ?thesis
      by (auto simp: dfs_inv_def)
  next
    case False
    then obtain s1 where s1: "visit D name s = Inr s1" and r: "visit_all D names s1 = Inr s'"
      using Cons.prems(1) by (simp split: sum.splits)
    from visit_success(1)[OF s1 Cons.prems(2)] obtain zs where
      inv1: "dfs_inv D s1" and t1: "temp s1 = temp s" and v1: "visited s1 name"
      and o1: "order s1 = order s @ zs"
      by blast
    from Cons.IH[OF r inv1] have inv': "dfs_inv D s'" and t': "temp s' = temp s1"
      and v': "\<forall>n \<in> set names. visited s' n" and sub: "set (order s1) \<subseteq> set (order s')"
      by simp_all
    have "visited s' name" using v1 inv1 inv' sub by (auto simp: dfs_inv_def)
    then show ?thesis using inv' t' t1 v' sub o1 by auto
  qed
qed

lemma visit_all_error_on_cycle:
  "visit_all D names s = Inl e \<Longrightarrow> (\<forall>t. \<not> temp s t) \<Longrightarrow>
     \<exists>c. e = Errorf (''cycle detected in dependencies involving '' @ c) \<and> (c, c) \<in> (dep_edge D)\<^sup>+"
proof (induction names arbitrary: s)
  case Nil
  then show ?case by simp
next
  case (Cons name names)
  show ?case
  proof (cases "visited s name")
    case True
    then have "visit_all D names s = Inl e" using Cons.prems(1) by simp
    then show ?thesis using Cons.IH Cons.prems(2) by blast
  next
    case False
    show ?thesis
    proof (cases "visit D name s")
      case (Inl e')
      then have "visit D name s = Inl e" using Cons.prems(1) False by simp
      then show ?thesis
        by (rule visit_error_on_cycle(1)) (simp add: Cons.prems(2))
    next
      case (Inr s1)
      then have r: "visit_all D names s1 = Inl e" using Cons.prems(1) False by simp
      have "temp s1 = temp s" using Inr by (rule visit_temp(1))
      then have "\<forall>t. \<not> temp s1 t" using Cons.prems(2) by simp
      with r show ?thesis by (rule Cons.IH)
    qed
  qed
qed

lemma dfs_inv_empty: "dfs_inv D empty_dfs"
  by (simp add: dfs_inv_def empty_dfs_def deps_first_def)

text \<open>In a duplicate-free list that has every dependency before its dependent, a path of
  the dependency graph only leads to earlier positions.\<close>

lemma deps_first_path:
  assumes "deps_first D xs" "(a, b) \<in> (dep_edge D)\<^sup>+" "a \<in> set xs"
  shows "\<exists>i j. j < i \<and> i < length xs \<and> xs ! i = a \<and> xs ! j = b"
  using assms(2,3)
proof (induction rule: trancl_induct)
  case (base b)
  from \<open>a \<in> set xs\<close> obtain i where i: "i < length xs" "xs ! i = a"
    by (auto simp: in_set_conv_nth)
  have "set (lookup_deps D (xs ! i)) \<subseteq> set (take i xs)"
    using assms(1) i(1) by (simp add: deps_first_def)
  then have "b \<in> set (take i xs)"
    using base(1) i by (auto simp: dep_edge_def)
  then obtain j where "j < i" "xs ! j = b"
    using i(1) by (auto simp: in_set_conv_nth)
  with i show ?case by blast
next
  case (step b c)
  then obtain i j where ij: "j < i" "i < length xs" "xs ! i = a" "xs ! j = b"
    by blast
  have jl: "j < length xs" using ij by simp
  then have "set (lookup_deps D (xs ! j)) \<subseteq> set (take j xs)"
    using assms(1) by (simp add: deps_first_def)
  then have "c \<in> set (take j xs)"
    using step(2) ij by (auto simp: dep_edge_def)
  then obtain k where "k < j" "xs ! k = c"
    using jl by (auto simp: in_set_conv_nth)
  moreover from \<open>k < j\<close> ij(1) have "k < i" by simp
  ultimately show ?case using ij(2,3) by blast
qed

lemma deps_first_no_cycle:
  assumes "deps_first D xs" "distinct xs" "a \<in> set xs"
  shows "(a, a) \<notin> (dep_edge D)\<^sup>+"
proof
  assume "(a, a) \<in> (dep_edge D)\<^sup>+"
  from deps_first_path[OF assms(1) this assms(3)] obtain i j where
    "j < i" "i < length xs" "xs ! i = a" "xs ! j = a" by blast
  with assms(2) show False
    by (metis less_trans nat_neq_iff nth_eq_iff_index_eq)
qed

lemma deps_first_closed:
  assumes "deps_first D xs" "(a, b) \<in> (dep_edge D)\<^sup>*" "a \<in> set xs"
  shows "b \<in> set xs"
  using assms(2,3)
proof (induction rule: rtrancl_induct)
  case base
  then show ?case by simp
next
  case (step b c)
  then obtain i where i: "i < length xs" "xs ! i = b"
    by (auto simp: in_set_conv_nth)
  have "set (lookup_deps D (xs ! i)) \<subseteq> set (take i xs)"
    using assms(1) i(1) by (simp add: deps_first_def)
  then have "c \<in> set (take i xs)"
    using step(2) i by (auto simp: dep_edge_def)
  then show ?case by (meson in_set_takeD)
qed

subsection \<open>Resolving units\<close>

lemma index_names_notin:
  "x \<notin> set names \<Longrightarrow> index_names names k m x = m x"
  by (induction names arbitrary: k m) auto

lemma index_names_distinct:
  "distinct names \<Longrightarrow> i < length names \<Longrightarrow> index_names names k m (names ! i) = Some (k + i)"
proof (induction names arbitrary: k m i)
  case Nil
  then show ?case by simp
next
  case (Cons n ns)
  show ?case
  proof (cases i)
    case 0
    with Cons.prems show ?thesis by (simp add: index_names_notin)
  next
    case (Suc j)
    have "index_names ns (k + 1) (m(n \<mapsto> k)) (ns ! j) = Some (k + 1 + j)"
      using Cons.prems Suc by (intro Cons.IH) auto
    then show ?thesis using Suc by simp
  qed
qed

lemma unit_index_distinct:
  "distinct (map name_of units) \<Longrightarrow> i < length units \<Longrightarrow>
     unit_index name_of units (name_of (units ! i)) = i"
  using index_names_distinct[of "map name_of units" i 0 Map.empty]
  by (simp add: unit_index_def)

lemma unit_index_missing:
  "x \<notin> set (map name_of units) \<Longrightarrow> unit_index name_of units x = 0"
  by (simp add: unit_index_def index_names_notin)

lemma unit_graph_rev:
  "unit_graph name_of deps_of units = rev (map (\<lambda>u. (name_of u, deps_of u)) units)"
proof -
  have "fold (\<lambda>u dependencies. (name_of u, deps_of u) # dependencies) units acc
        = rev (map (\<lambda>u. (name_of u, deps_of u)) units) @ acc" for acc
    by (induction units arbitrary: acc) auto
  then show ?thesis by (simp add: unit_graph_def)
qed

lemma lookup_unit_graph:
  assumes "distinct (map name_of units)" "u \<in> set units"
  shows "lookup_deps (unit_graph name_of deps_of units) (name_of u) = deps_of u"
proof -
  let ?D = "unit_graph name_of deps_of units"
  have "distinct (map fst ?D)"
    using assms(1) by (simp add: unit_graph_rev rev_map[symmetric] comp_def)
  moreover have "(name_of u, deps_of u) \<in> set ?D"
    using assms(2) by (auto simp: unit_graph_rev)
  ultimately have "map_of ?D (name_of u) = Some (deps_of u)"
    by simp
  then show ?thesis by (simp add: lookup_deps_def)
qed

lemma resolve_units_out_of_group:
  assumes dist: "distinct (map name_of units)"
    and acyc: "\<forall>c. (c, c) \<notin> (dep_edge (unit_graph name_of deps_of units))\<^sup>+"
    and u: "u \<in> set units" and x: "x \<in> set (deps_of u)"
    and xn: "x \<notin> set (map name_of units)"
  shows "\<exists>sortedNames result.
           resolveDependencyOrder (map name_of units) (unit_graph name_of deps_of units)
             = Inr sortedNames
         \<and> resolve_units name_of deps_of units = Inr result
         \<and> x \<in> set sortedNames
         \<and> length result = length sortedNames
         \<and> (\<forall>i < length sortedNames.
               sortedNames ! i \<notin> set (map name_of units) \<longrightarrow> result ! i = units ! 0)
         \<and> length units < length result
         \<and> \<not> distinct result"
proof -
  let ?D = "unit_graph name_of deps_of units"
  let ?names = "map name_of units"
  obtain s where s: "visit_all ?D ?names empty_dfs = Inr s"
  proof (cases "visit_all ?D ?names empty_dfs")
    case (Inl e)
    then have "\<exists>c. e = Errorf (''cycle detected in dependencies involving '' @ c)
                 \<and> (c, c) \<in> (dep_edge ?D)\<^sup>+"
      by (rule visit_all_error_on_cycle) (simp add: empty_dfs_def)
    with acyc show ?thesis by blast
  next
    case (Inr s)
    then show ?thesis by (rule that)
  qed
  from visit_all_success[OF s dfs_inv_empty] have inv: "dfs_inv ?D s"
    and v: "\<forall>n \<in> set ?names. visited s n" by simp_all
  have d: "distinct (order s)" and vo: "\<And>n. visited s n = (n \<in> set (order s))"
    and df: "deps_first ?D (order s)"
    using inv by (simp_all add: dfs_inv_def)
  define sorted where "sorted = rev (order s)"
  define result where "result = map (\<lambda>name. units ! unit_index name_of units name) sorted"
  have r1: "resolveDependencyOrder ?names ?D = Inr sorted"
    using s by (simp add: resolveDependencyOrder_rev sorted_def)
  then have r2: "resolve_units name_of deps_of units = Inr result"
    by (simp add: resolve_units_def result_def)
  have names_in: "set ?names \<subseteq> set sorted"
    using v vo by (auto simp: sorted_def)
  have "name_of u \<in> set (order s)"
    using u v vo by auto
  then obtain i where i: "i < length (order s)" "order s ! i = name_of u"
    by (auto simp: in_set_conv_nth)
  have "set (lookup_deps ?D (order s ! i)) \<subseteq> set (take i (order s))"
    using df i(1) by (simp add: deps_first_def)
  then have "set (deps_of u) \<subseteq> set (order s)"
    using i(2) lookup_unit_graph[OF dist u, of deps_of] by (auto dest: in_set_takeD)
  then have x_in: "x \<in> set sorted"
    using x by (auto simp: sorted_def)
  have len: "length result = length sorted"
    by (simp add: result_def)
  have zero: "result ! k = units ! 0" if "k < length sorted" "sorted ! k \<notin> set ?names" for k
    using that by (simp add: result_def unit_index_missing)
  have "card (insert x (set ?names)) \<le> card (set sorted)"
    using names_in x_in by (intro card_mono) auto
  moreover have "card (insert x (set ?names)) = Suc (length units)"
  proof -
    have "card (set ?names) = length ?names" using dist by (rule distinct_card)
    moreover have "card (insert x (set ?names)) = Suc (card (set ?names))"
      using xn by (intro card_insert_disjoint) auto
    ultimately show ?thesis by simp
  qed
  moreover have "card (set sorted) = length sorted"
    using d by (simp add: sorted_def distinct_card)
  ultimately have longer: "length units < length result"
    using len by simp
  have ne: "units \<noteq> []" using u by auto
  then have n0: "name_of (units ! 0) \<in> set sorted"
    using names_in by (cases units) auto
  then obtain a where a: "a < length sorted" "sorted ! a = name_of (units ! 0)"
    by (auto simp: in_set_conv_nth)
  from x_in obtain b where b: "b < length sorted" "sorted ! b = x"
    by (auto simp: in_set_conv_nth)
  have "name_of (units ! 0) \<in> set ?names" using ne by (cases units) auto
  with xn a(2) b(2) have "a \<noteq> b" by auto
  have "result ! a = units ! 0"
    using a ne unit_index_distinct[OF dist, of 0] by (simp add: result_def)
  moreover have "result ! b = units ! 0"
    using zero[OF b(1)] b(2) xn by simp
  ultimately have "\<not> distinct result"
    using \<open>a \<noteq> b\<close> a(1) b(1) len by (metis nth_eq_iff_index_eq)
  with r1 r2 x_in len zero longer show ?thesis by blast
qed

lemma resolveDependencyOrder_dependents_first:
  assumes "resolveDependencyOrder names D = Inr xs"
  shows "distinct xs \<and> set names \<subseteq> set xs \<and> deps_first D (rev xs)"
proof -
  from assms obtain s where s: "visit_all D names empty_dfs = Inr s" and xs: "xs = rev (order s)"
    by (auto simp: resolveDependencyOrder_rev split: sum.splits)
  from visit_all_success[OF s dfs_inv_empty] show ?thesis
    by (auto simp: xs dfs_inv_def)
qed

lemma resolveServiceDependencies_out_of_group:
  assumes "distinct (map svc_Name services)"
    and "\<forall>c. (c, c) \<notin> (dep_edge (unit_graph svc_Name svc_DependsOn services))\<^sup>+"
    and "u \<in> set services" and "x \<in> set (svc_DependsOn u)"
    and "x \<notin> set (map svc_Name services)"
  shows "\<exists>sortedNames result.
           resolveDependencyOrder (map svc_Name services)
             (unit_graph svc_Name svc_DependsOn services) = Inr sortedNames
         \<and> resolveServiceDependencies services = Inr result
         \<and> x \<in> set sortedNames
         \<and> length result = length sortedNames
         \<and> (\<forall>i < length sortedNames.
               sortedNames ! i \<notin> set (map svc_Name services) \<longrightarrow> result ! i = services ! 0)
         \<and> length services < length result
         \<and> \<not> distinct result"
  unfolding resolveServiceDependencies_def
  using assms by (rule resolve_units_out_of_group)

subsection \<open>Validation\<close>

lemma validate_service_deps_None:
  "validate_service_deps sn name deps = None \<longleftrightarrow> (\<forall>d \<in> set deps. sn d)"
  by (induction deps) auto

lemma validate_service_deps_Some:
  "validate_service_deps sn name deps = Some e \<Longrightarrow>
     \<exists>d \<in> set deps. \<not> sn d \<and> e = Errorf (''service '' @ name @ '' depends on undefined service: '' @ d)"
  by (induction deps) (auto split: if_splits)

lemma validate_app_deps_None:
  "validate_app_deps sn an name deps = None \<longleftrightarrow> (\<forall>d \<in> set deps. sn d \<or> an d)"
  by (induction deps) auto

lemma validate_app_deps_Some:
  "validate_app_deps sn an name deps = Some e \<Longrightarrow>
     \<exists>d \<in> set deps. \<not> sn d \<and> \<not> an d
        \<and> e = Errorf (''app '' @ name @ '' depends on undefined service or app: '' @ d)"
  by (induction deps) (auto split: if_splits)

lemma services_basic_Cons:
  "services_basic sn (s # ss) \<longleftrightarrow>
     svc_Name s \<noteq> [] \<and> svc_Image s \<noteq> [] \<and> \<not> sn (svc_Name s)
     \<and> services_basic (sn(svc_Name s := True)) ss"
  by (auto simp: services_basic_def) (metis image_eqI)

lemma Collect_upd_True: "{n. (f(a := True)) n} = insert a {n. f n}"
  by auto

lemma validate_services_Inr:
  "validate_services ss i sn = Inr sn' \<longleftrightarrow>
     services_basic sn ss \<and> service_deps_resolved {n. sn n} ss
     \<and> sn' = (\<lambda>n. sn n \<or> n \<in> svc_Name ` set ss)"
proof (induction ss arbitrary: i sn)
  case Nil
  then show ?case by (auto simp: services_basic_def)
next
  case (Cons s ss)
  define sn1 where "sn1 = sn(svc_Name s := True)"
  have c1: "{n. sn1 n} = insert (svc_Name s) {n. sn n}"
    by (auto simp: sn1_def)
  have f1: "(\<lambda>n. sn1 n \<or> n \<in> svc_Name ` set ss) = (\<lambda>n. sn n \<or> n \<in> svc_Name ` set (s # ss))"
    by (auto simp: fun_eq_iff sn1_def)
  show ?case
  proof (cases "svc_Name s \<noteq> [] \<and> svc_Image s \<noteq> [] \<and> \<not> sn (svc_Name s)
                \<and> (\<forall>d \<in> set (svc_DependsOn s). sn1 d)")
    case True
    then have "validate_service_deps sn1 (svc_Name s) (svc_DependsOn s) = None"
      by (simp add: validate_service_deps_None)
    with True have eq: "validate_services (s # ss) i sn = validate_services ss (i + 1) sn1"
      by (simp add: Let_def sn1_def)
    have sub: "set (svc_DependsOn s) \<subseteq> insert (svc_Name s) {n. sn n}"
      using True c1 by auto
    have "validate_services (s # ss) i sn = Inr sn' \<longleftrightarrow>
            validate_services ss (i + 1) sn1 = Inr sn'"
      by (simp only: eq)
    also have "\<dots> \<longleftrightarrow> services_basic sn1 ss \<and> service_deps_resolved {n. sn1 n} ss
                 \<and> sn' = (\<lambda>n. sn1 n \<or> n \<in> svc_Name ` set ss)"
      by (rule Cons.IH)
    also have "\<dots> \<longleftrightarrow> services_basic sn (s # ss) \<and> service_deps_resolved {n. sn n} (s # ss)
                 \<and> sn' = (\<lambda>n. sn n \<or> n \<in> svc_Name ` set (s # ss))"
      unfolding f1 c1 services_basic_Cons using True sub
      by (simp add: sn1_def del: fun_upd_apply)
    finally show ?thesis .
  next
    case False
    then have "\<not> (services_basic sn (s # ss) \<and> service_deps_resolved {n. sn n} (s # ss))"
      using c1 by (auto simp: services_basic_Cons)
    moreover have "validate_services (s # ss) i sn \<noteq> Inr sn'"
    proof (cases "svc_Name s \<noteq> [] \<and> svc_Image s \<noteq> [] \<and> \<not> sn (svc_Name s)")
      case True
      with False have "validate_service_deps sn1 (svc_Name s) (svc_DependsOn s) \<noteq> None"
        by (simp add: validate_service_deps_None)
      then show ?thesis using True by (auto simp: Let_def sn1_def)
    next
      case False
      then show ?thesis by (auto simp: Let_def)
    qed
    ultimately show ?thesis by blast
  qed
qed

lemma validate_services_Inl:
  "validate_services ss i sn = Inl e \<Longrightarrow> services_basic sn ss \<Longrightarrow>
     \<exists>s \<in> set ss. \<exists>d \<in> set (svc_DependsOn s).
       e = Errorf (''service '' @ svc_Name s @ '' depends on undefined service: '' @ d)"
proof (induction ss arbitrary: i sn)
  case Nil
  then show ?case by simp
next
  case (Cons s ss)
  from Cons.prems(2) have b: "svc_Name s \<noteq> []" "svc_Image s \<noteq> []" "\<not> sn (svc_Name s)"
    and rest: "services_basic (sn(svc_Name s := True)) ss"
    by (simp_all add: services_basic_Cons)
  show ?case
  proof (cases "validate_service_deps (sn(svc_Name s := True)) (svc_Name s) (svc_DependsOn s)")
    case None
    then have "validate_services ss (i + 1) (sn(svc_Name s := True)) = Inl e"
      using Cons.prems(1) b by (simp add: Let_def)
    from Cons.IH[OF this rest] show ?thesis by auto
  next
    case (Some e')
    then have "e' = e" using Cons.prems(1) b by (simp add: Let_def)
    with validate_service_deps_Some[OF Some] show ?thesis by auto
  qed
qed

lemma ball_upd_True:
  "(\<forall>b \<in> S. \<not> (f(x := True)) (g b)) \<longleftrightarrow> (\<forall>b \<in> S. \<not> f (g b)) \<and> x \<notin> g ` S"
  by (simp add: image_iff) metis

lemma ball_upd_True_imp:
  "(\<forall>b \<in> S. P b \<longrightarrow> \<not> (f(x := True)) (g b)) \<longleftrightarrow>
     (\<forall>b \<in> S. P b \<longrightarrow> \<not> f (g b)) \<and> x \<notin> g ` {b \<in> S. P b}"
  apply (simp add: image_iff)
  apply (rule iffI)
   apply blast
  apply blast
  done

lemma set_nonempty_subdomains:
  "set (filter (\<lambda>s. s \<noteq> []) (map app_Subdomain as))
     = app_Subdomain ` {b \<in> set as. app_Subdomain b \<noteq> []}"
  by (induction as) auto

lemma set_nonempty_paths:
  "set (map normalizePath (filter (\<lambda>p. p \<noteq> []) (map app_Path as)))
     = (\<lambda>b. normalizePath (app_Path b)) ` {b \<in> set as. app_Path b \<noteq> []}"
  by (induction as) auto

lemma apps_basic_Cons:
  "apps_basic seen (a # as) \<longleftrightarrow> app_basic seen a \<and> apps_basic (seen_after a seen) as"
proof -
  have n: "(\<forall>b \<in> set as. \<not> appNames (seen_after a seen) (app_Name b)) \<longleftrightarrow>
           (\<forall>b \<in> set as. \<not> appNames seen (app_Name b)) \<and> app_Name a \<notin> set (map app_Name as)"
    using ball_upd_True[of "set as" "appNames seen" "app_Name a" app_Name]
    by (simp add: seen_after_def del: fun_upd_apply)
  have s: "(\<forall>b \<in> set as. app_Subdomain b \<noteq> [] \<longrightarrow> \<not> subdomains (seen_after a seen) (app_Subdomain b)) \<longleftrightarrow>
           (\<forall>b \<in> set as. app_Subdomain b \<noteq> [] \<longrightarrow> \<not> subdomains seen (app_Subdomain b))
           \<and> (app_Subdomain a \<noteq> [] \<longrightarrow>
                app_Subdomain a \<notin> set (filter (\<lambda>s. s \<noteq> []) (map app_Subdomain as)))"
  proof (cases "app_Subdomain a = []")
    case True
    then show ?thesis by (simp add: seen_after_def)
  next
    case False
    then have eq: "subdomains (seen_after a seen) = (subdomains seen)(app_Subdomain a := True)"
      by (simp add: seen_after_def)
    show ?thesis
      unfolding set_nonempty_subdomains
      by (simp only: eq ball_upd_True_imp False simp_thms)
  qed
  have p: "(\<forall>b \<in> set as. app_Path b \<noteq> [] \<longrightarrow> \<not> paths (seen_after a seen) (normalizePath (app_Path b))) \<longleftrightarrow>
           (\<forall>b \<in> set as. app_Path b \<noteq> [] \<longrightarrow> \<not> paths seen (normalizePath (app_Path b)))
           \<and> (app_Path a \<noteq> [] \<longrightarrow>
                normalizePath (app_Path a) \<notin> set (map normalizePath
                   (filter (\<lambda>p. p \<noteq> []) (map app_Path as))))"
  proof (cases "app_Path a = []")
    case True
    then show ?thesis by (simp add: seen_after_def)
  next
    case False
    then have eq: "paths (seen_after a seen) = (paths seen)(normalizePath (app_Path a) := True)"
      by (simp add: seen_after_def)
    show ?thesis
      unfolding set_nonempty_paths
      by (simp only: eq ball_upd_True_imp False simp_thms)
  qed
  have rest: "(\<forall>b \<in> set as. app_basic (seen_after a seen) b) \<longleftrightarrow>
     (\<forall>b \<in> set as. app_Name b \<noteq> [] \<and> app_Image b \<noteq> [])
     \<and> (\<forall>b \<in> set as. \<not> appNames (seen_after a seen) (app_Name b))
     \<and> (\<forall>b \<in> set as. app_Subdomain b \<noteq> [] \<longrightarrow> \<not> subdomains (seen_after a seen) (app_Subdomain b))
     \<and> (\<forall>b \<in> set as. app_Path b \<noteq> [] \<longrightarrow> \<not> paths (seen_after a seen) (normalizePath (app_Path b)))"
    unfolding app_basic_def by blast
  have old: "(\<forall>b \<in> set as. app_basic seen b) \<longleftrightarrow>
     (\<forall>b \<in> set as. app_Name b \<noteq> [] \<and> app_Image b \<noteq> [])
     \<and> (\<forall>b \<in> set as. \<not> appNames seen (app_Name b))
     \<and> (\<forall>b \<in> set as. app_Subdomain b \<noteq> [] \<longrightarrow> \<not> subdomains seen (app_Subdomain b))
     \<and> (\<forall>b \<in> set as. app_Path b \<noteq> [] \<longrightarrow> \<not> paths seen (normalizePath (app_Path b)))"
    unfolding app_basic_def by blast
  have "apps_basic seen (a # as) \<longleftrightarrow>
      app_basic seen a \<and> (\<forall>b \<in> set as. app_basic seen b)
      \<and> app_Name a \<notin> set (map app_Name as) \<and> distinct (map app_Name as)
      \<and> (app_Subdomain a \<noteq> [] \<longrightarrow>
            app_Subdomain a \<notin> set (filter (\<lambda>s. s \<noteq> []) (map app_Subdomain as)))
      \<and> distinct (filter (\<lambda>s. s \<noteq> []) (map app_Subdomain as))
      \<and> (app_Path a \<noteq> [] \<longrightarrow>
            normalizePath (app_Path a) \<notin> set (map normalizePath
               (filter (\<lambda>p. p \<noteq> []) (map app_Path as))))
      \<and> distinct (map normalizePath (filter (\<lambda>p. p \<noteq> []) (map app_Path as)))"
    unfolding apps_basic_def by (simp del: set_map set_filter)
  also have "\<dots> \<longleftrightarrow> app_basic seen a \<and> apps_basic (seen_after a seen) as"
    unfolding apps_basic_def rest n s p old by blast
  finally show ?thesis .
qed

lemma validate_apps_step:
  assumes "app_basic seen a"
  shows "validate_apps sn (a # as) i seen =
           (case validate_app_deps sn (appNames (seen_after a seen)) (app_Name a)
                   (app_DependsOn a) of
              Some err \<Rightarrow> Some err
            | None \<Rightarrow> validate_apps sn as (i + 1) (seen_after a seen))"
  using assms
  by (cases seen; cases "app_Path a = []"; cases "app_Subdomain a = []")
     (simp_all add: app_basic_def Let_def seen_after_def del: fun_upd_apply
        cong: option.case_cong)

lemma validate_apps_not_basic:
  "\<not> app_basic seen a \<Longrightarrow> validate_apps sn (a # as) i seen \<noteq> None"
  by (auto simp: app_basic_def Let_def split: option.splits)

lemma appNames_seen_after: "{n. appNames (seen_after a seen) n} = insert (app_Name a) {n. appNames seen n}"
  by (auto simp: seen_after_def)

lemma validate_apps_None:
  "validate_apps sn as i seen = None \<longleftrightarrow>
     apps_basic seen as \<and> app_deps_resolved {n. sn n} {n. appNames seen n} as"
proof (induction as arbitrary: i seen)
  case Nil
  then show ?case by (simp add: apps_basic_def)
next
  case (Cons a as)
  show ?case
  proof (cases "app_basic seen a")
    case False
    then show ?thesis
      using validate_apps_not_basic[OF False] by (simp add: apps_basic_Cons)
  next
    case True
    have sub: "(\<forall>d \<in> set (app_DependsOn a). sn d \<or> appNames (seen_after a seen) d) \<longleftrightarrow>
               set (app_DependsOn a) \<subseteq> {n. sn n} \<union> insert (app_Name a) {n. appNames seen n}"
      using appNames_seen_after[of a seen] by blast
    show ?thesis
    proof (cases "validate_app_deps sn (appNames (seen_after a seen)) (app_Name a)
                    (app_DependsOn a)")
      case None
      then have "validate_apps sn (a # as) i seen = validate_apps sn as (i + 1) (seen_after a seen)"
        by (simp only: validate_apps_step[OF True] option.case)
      moreover have "set (app_DependsOn a) \<subseteq> {n. sn n} \<union> insert (app_Name a) {n. appNames seen n}"
        using None sub by (simp add: validate_app_deps_None)
      ultimately show ?thesis
        using True Cons.IH[of "i + 1" "seen_after a seen"]
        by (simp only: apps_basic_Cons app_deps_resolved.simps appNames_seen_after simp_thms)
    next
      case (Some e)
      then have "validate_apps sn (a # as) i seen \<noteq> None"
        by (simp only: validate_apps_step[OF True] option.case option.distinct simp_thms)
      moreover have "\<not> set (app_DependsOn a) \<subseteq> {n. sn n} \<union> insert (app_Name a) {n. appNames seen n}"
        using Some sub validate_app_deps_None[of sn "appNames (seen_after a seen)" "app_Name a"
            "app_DependsOn a"] by simp
      ultimately show ?thesis
        by (simp only: app_deps_resolved.simps simp_thms)
    qed
  qed
qed

lemma validate_apps_Some:
  "validate_apps sn as i seen = Some e \<Longrightarrow> apps_basic seen as \<Longrightarrow>
     \<exists>a \<in> set as. \<exists>d \<in> set (app_DependsOn a).
       e = Errorf (''app '' @ app_Name a @ '' depends on undefined service or app: '' @ d)"
proof (induction as arbitrary: i seen)
  case Nil
  then show ?case by simp
next
  case (Cons a as)
  from Cons.prems(2) have b: "app_basic seen a" and rest: "apps_basic (seen_after a seen) as"
    by (simp_all add: apps_basic_Cons)
  show ?case
  proof (cases "validate_app_deps sn (appNames (seen_after a seen)) (app_Name a)
                  (app_DependsOn a)")
    case None
    then have "validate_apps sn as (i + 1) (seen_after a seen) = Some e"
      using Cons.prems(1) by (simp only: validate_apps_step[OF b] option.case)
    from Cons.IH[OF this rest] show ?thesis by auto
  next
    case (Some e')
    then have "e' = e"
      using Cons.prems(1) by (simp only: validate_apps_step[OF b] option.case option.inject)
    with validate_app_deps_Some[OF Some] show ?thesis by auto
  qed
qed

lemma well_formed_basic:
  "well_formed config \<longleftrightarrow>
     cfg_Version config \<noteq> [] \<and> cfg_Domain config \<noteq> []
     \<and> services_basic (\<lambda>_. False) (cfg_Services config)
     \<and> apps_basic seen_nothing (cfg_Apps config)
     \<and> validate_ssl (cfg_SSL config) = None"
  unfolding well_formed_def services_basic_def apps_basic_def app_basic_def seen_nothing_def
  by (simp del: set_map set_filter)

lemma service_deps_declared:
  "service_deps_resolved earlier ss \<Longrightarrow> s \<in> set ss \<Longrightarrow>
     set (svc_DependsOn s) \<subseteq> earlier \<union> set (map svc_Name ss)"
  by (induction ss arbitrary: earlier) fastforce+

lemma app_deps_declared:
  "app_deps_resolved sn earlier as \<Longrightarrow> a \<in> set as \<Longrightarrow>
     set (app_DependsOn a) \<subseteq> sn \<union> earlier \<union> set (map app_Name as)"
  by (induction as arbitrary: earlier) fastforce+

lemma Validate_None:
  "Validate config = None \<longleftrightarrow> well_formed config \<and> deps_resolved config"
proof -
  let ?sn = "\<lambda>n. n \<in> svc_Name ` set (cfg_Services config)"
  have c: "{n. ?sn n} = set (map svc_Name (cfg_Services config))" by auto
  have e: "{n. appNames seen_nothing n} = {}" "{n::string. False} = {}"
    by (simp_all add: seen_nothing_def)
  show ?thesis
  proof (cases "validate_services (cfg_Services config) 0 (\<lambda>_. False)")
    case (Inl err)
    have "\<not> (services_basic (\<lambda>_. False) (cfg_Services config)
              \<and> service_deps_resolved {} (cfg_Services config))"
    proof
      assume "services_basic (\<lambda>_. False) (cfg_Services config)
              \<and> service_deps_resolved {} (cfg_Services config)"
      then have "validate_services (cfg_Services config) 0 (\<lambda>_. False) = Inr ?sn"
        using validate_services_Inr[of "cfg_Services config" 0 "\<lambda>_. False" ?sn]
        by (simp add: e)
      with Inl show False by simp
    qed
    then show ?thesis
      using Inl by (auto simp: Validate_def well_formed_basic deps_resolved_def)
  next
    case (Inr sn')
    then have sb: "services_basic (\<lambda>_. False) (cfg_Services config)"
      and sd: "service_deps_resolved {} (cfg_Services config)" and sn': "sn' = ?sn"
      using validate_services_Inr[of "cfg_Services config" 0 "\<lambda>_. False" sn'] by (simp_all add: e)
    have "validate_apps sn' (cfg_Apps config) 0 seen_nothing = None \<longleftrightarrow>
            apps_basic seen_nothing (cfg_Apps config)
            \<and> app_deps_resolved (set (map svc_Name (cfg_Services config))) {} (cfg_Apps config)"
      unfolding validate_apps_None sn' c e ..
    then show ?thesis
      using Inr sb sd
      by (auto simp: Validate_def well_formed_basic deps_resolved_def seen_nothing_def
          split: option.splits)
  qed
qed

lemma services_declared_first_resolved:
  "services_declared_first A earlier ss \<Longrightarrow> \<forall>s \<in> set ss. set (svc_DependsOn s) \<subseteq> A \<Longrightarrow>
     service_deps_resolved earlier ss"
  by (induction ss arbitrary: earlier) auto

lemma apps_declared_first_resolved:
  "apps_declared_first sn AN earlier as \<Longrightarrow> \<forall>a \<in> set as. set (app_DependsOn a) \<subseteq> sn \<union> AN \<Longrightarrow>
     app_deps_resolved sn earlier as"
  by (induction as arbitrary: earlier) auto

lemma deps_resolved_declared: "deps_resolved config \<Longrightarrow> deps_declared config"
  unfolding deps_resolved_def deps_declared_def declared_def
  using service_deps_declared[of "{}" "cfg_Services config"]
    app_deps_declared[of "set (map svc_Name (cfg_Services config))" "{}" "cfg_Apps config"]
  by auto

lemma deps_declared_resolved:
  "declared_first config \<Longrightarrow> deps_declared config \<Longrightarrow> deps_resolved config"
  unfolding deps_resolved_def deps_declared_def declared_def declared_first_def
  using services_declared_first_resolved apps_declared_first_resolved by blast

lemma validate_services_undeclared:
  "validate_services ss i sn = Inl e \<Longrightarrow> services_basic sn ss \<Longrightarrow>
     services_declared_first A {n. sn n} ss \<Longrightarrow>
     \<exists>s \<in> set ss. \<exists>d \<in> set (svc_DependsOn s). d \<notin> A
       \<and> e = Errorf (''service '' @ svc_Name s @ '' depends on undefined service: '' @ d)"
proof (induction ss arbitrary: i sn)
  case Nil
  then show ?case by simp
next
  case (Cons s ss)
  from Cons.prems(2) have b: "svc_Name s \<noteq> []" "svc_Image s \<noteq> []" "\<not> sn (svc_Name s)"
    and rest: "services_basic (sn(svc_Name s := True)) ss"
    by (simp_all add: services_basic_Cons)
  from Cons.prems(3) have
    here: "\<forall>d \<in> set (svc_DependsOn s). d \<in> A \<longrightarrow> d \<in> insert (svc_Name s) {n. sn n}"
    and later: "services_declared_first A {n. (sn(svc_Name s := True)) n} ss"
    unfolding Collect_upd_True by simp_all
  show ?case
  proof (cases "validate_service_deps (sn(svc_Name s := True)) (svc_Name s) (svc_DependsOn s)")
    case None
    then have "validate_services ss (i + 1) (sn(svc_Name s := True)) = Inl e"
      using Cons.prems(1) b by (simp add: Let_def)
    from Cons.IH[OF this rest later] show ?thesis by auto
  next
    case (Some e')
    then have "e' = e" using Cons.prems(1) b by (simp add: Let_def)
    with validate_service_deps_Some[OF Some] obtain d where
      d: "d \<in> set (svc_DependsOn s)" "\<not> (sn(svc_Name s := True)) d"
      "e = Errorf (''service '' @ svc_Name s @ '' depends on undefined service: '' @ d)"
      by blast
    from d(2) have "d \<notin> insert (svc_Name s) {n. sn n}" by (auto split: if_splits)
    with here d(1) have "d \<notin> A" by blast
    with d show ?thesis by auto
  qed
qed

lemma validate_apps_undeclared:
  "validate_apps sn as i seen = Some e \<Longrightarrow> apps_basic seen as \<Longrightarrow>
     apps_declared_first {n. sn n} AN {n. appNames seen n} as \<Longrightarrow>
     \<exists>a \<in> set as. \<exists>d \<in> set (app_DependsOn a). d \<notin> {n. sn n} \<union> AN
       \<and> e = Errorf (''app '' @ app_Name a @ '' depends on undefined service or app: '' @ d)"
proof (induction as arbitrary: i seen)
  case Nil
  then show ?case by simp
next
  case (Cons a as)
  from Cons.prems(2) have b: "app_basic seen a" and rest: "apps_basic (seen_after a seen) as"
    by (simp_all add: apps_basic_Cons)
  from Cons.prems(3) have
    here: "\<forall>d \<in> set (app_DependsOn a).
             d \<in> AN \<longrightarrow> d \<in> {n. sn n} \<union> insert (app_Name a) {n. appNames seen n}"
    and later: "apps_declared_first {n. sn n} AN {n. appNames (seen_after a seen) n} as"
    unfolding appNames_seen_after by simp_all
  show ?case
  proof (cases "validate_app_deps sn (appNames (seen_after a seen)) (app_Name a)
                  (app_DependsOn a)")
    case None
    then have "validate_apps sn as (i + 1) (seen_after a seen) = Some e"
      using Cons.prems(1) by (simp only: validate_apps_step[OF b] option.case)
    from Cons.IH[OF this rest later] show ?thesis by auto
  next
    case (Some e')
    then have "e' = e"
      using Cons.prems(1) by (simp only: validate_apps_step[OF b] option.case option.inject)
    with validate_app_deps_Some[OF Some] obtain d where
      d: "d \<in> set (app_DependsOn a)" "\<not> sn d" "\<not> appNames (seen_after a seen) d"
      "e = Errorf (''app '' @ app_Name a @ '' depends on undefined service or app: '' @ d)"
      by blast
    from d(3) have "d \<notin> insert (app_Name a) {n. appNames seen n}"
      using appNames_seen_after[of a seen] by blast
    with here d(1,2) have "d \<notin> {n. sn n} \<union> AN" by blast
    with d show ?thesis by auto
  qed
qed

lemma Validate_undeclared:
  assumes wf: "well_formed config" and df: "declared_first config"
    and v: "Validate config = Some e"
  shows "undeclared_dependency_error config e"
proof (cases "validate_services (cfg_Services config) 0 (\<lambda>_. False)")
  case (Inl err)
  then have "err = e" using wf v by (simp add: Validate_def well_formed_basic)
  moreover have "services_declared_first (set (map svc_Name (cfg_Services config)))
                   {n::string. False} (cfg_Services config)"
    using df by (simp add: declared_first_def)
  ultimately show ?thesis
    using validate_services_undeclared[OF Inl, of "set (map svc_Name (cfg_Services config))"] wf
    by (auto simp: well_formed_basic undeclared_dependency_error_def)
next
  case (Inr sn')
  then have sn': "sn' = (\<lambda>n. n \<in> svc_Name ` set (cfg_Services config))"
    using validate_services_Inr[of "cfg_Services config" 0 "\<lambda>_. False" sn'] by simp
  then have c: "{n. sn' n} = set (map svc_Name (cfg_Services config))" by auto
  show ?thesis
  proof (cases "validate_apps sn' (cfg_Apps config) 0 seen_nothing")
    case None
    then show ?thesis
      using wf v Inr by (simp add: Validate_def well_formed_basic seen_nothing_def)
  next
    case (Some err)
    then have "err = e"
      using wf v Inr by (simp add: Validate_def well_formed_basic seen_nothing_def)
    moreover have "apps_declared_first {n. sn' n} (set (map app_Name (cfg_Apps config)))
                     {n. appNames seen_nothing n} (cfg_Apps config)"
      using df unfolding c by (simp add: declared_first_def seen_nothing_def)
    ultimately show ?thesis
      using validate_apps_undeclared[OF Some, of "set (map app_Name (cfg_Apps config))"] wf
      unfolding c
      by (auto simp: well_formed_basic undeclared_dependency_error_def declared_def)
  qed
qed

subsection \<open>The health checker\<close>





lemma attempt_events_waits:
  "length (filter is_wait (attempt_events options a m)) = (if a = 0 then m - 1 else m)"
  by (induction m arbitrary: a) (auto simp: probe_event_def)

lemma attempt_events_first:
  "attempt_events options 0 (Suc m) = probe_event options 0 # attempt_events options 1 m"
  by simp









subsection \<open>Claims\<close>

text \<open>
  C1. Evaluation at the input \<^verbatim>\<open>names = [S1, S2]\<close>, where \<^verbatim>\<open>S2\<close> depends on
  \<^verbatim>\<open>S1\<close>: the resolver returns \<^verbatim>\<open>S2\<close> before its dependency \<^verbatim>\<open>S1\<close>.
\<close>

theorem resolveDependencyOrder_dependent_first:
  "resolveDependencyOrder [''S1'', ''S2''] [(''S2'', [''S1'']), (''S1'', [])]
     = Inr [''S2'', ''S1'']"
  by (simp add: resolveDependencyOrder_rev empty_dfs_def lookup_deps_def visit.simps)

text \<open>
  C9. When a cycle of the dependency graph can be reached from one of the input names,
  \<^verbatim>\<open>resolveDependencyOrder\<close> returns the error
  \<^verbatim>\<open>cycle detected in dependencies involving c\<close>, and the node \<open>c\<close> it names lies on a
  cycle.
\<close>

theorem resolveDependencyOrder_cycle:
  assumes "n \<in> set names" and "(n, a) \<in> (dep_edge D)\<^sup>*" and "(a, a) \<in> (dep_edge D)\<^sup>+"
  shows "\<exists>c. resolveDependencyOrder names D
                = Inl (Errorf (''cycle detected in dependencies involving '' @ c))
             \<and> (c, c) \<in> (dep_edge D)\<^sup>+"
proof (cases "visit_all D names empty_dfs")
  case (Inl e)
  then have "\<exists>c. e = Errorf (''cycle detected in dependencies involving '' @ c)
               \<and> (c, c) \<in> (dep_edge D)\<^sup>+"
    by (rule visit_all_error_on_cycle) (simp add: empty_dfs_def)
  with Inl show ?thesis by (auto simp: resolveDependencyOrder_rev)
next
  case (Inr s)
  from visit_all_success[OF Inr dfs_inv_empty] have inv: "dfs_inv D s"
    and v: "\<forall>n \<in> set names. visited s n" by simp_all
  have "n \<in> set (order s)" using v assms(1) inv by (simp add: dfs_inv_def)
  then have "a \<in> set (order s)"
    using deps_first_closed[OF _ assms(2)] inv by (simp add: dfs_inv_def)
  moreover have "deps_first D (order s)" "distinct (order s)"
    using inv by (simp_all add: dfs_inv_def)
  ultimately have "(a, a) \<notin> (dep_edge D)\<^sup>+"
    using deps_first_no_cycle by blast
  with assms(3) show ?thesis by simp
qed

theorem resolveDependencyOrder_cycle_witness:
  "''A'' \<in> set [''A'', ''B'']
   \<and> (''A'', ''A'') \<in> (dep_edge [(''B'', [''A'']), (''A'', [''B''])])\<^sup>*
   \<and> (''A'', ''A'') \<in> (dep_edge [(''B'', [''A'']), (''A'', [''B''])])\<^sup>+
   \<and> resolveDependencyOrder [''A'', ''B''] [(''B'', [''A'']), (''A'', [''B''])]
        = Inl (Errorf ''cycle detected in dependencies involving A'')"
proof -
  let ?D = "[(''B'', [''A'']), (''A'', [''B''])]"
  have ab: "(''A'', ''B'') \<in> dep_edge ?D" and ba: "(''B'', ''A'') \<in> dep_edge ?D"
    by (simp_all add: dep_edge_def lookup_deps_def)
  then have cyc: "(''A'', ''A'') \<in> (dep_edge ?D)\<^sup>+"
    by (meson trancl.r_into_trancl trancl.trancl_into_trancl)
  have n: "''A'' \<in> set [''A'', ''B'']" by simp
  have r: "(''A'', ''A'') \<in> (dep_edge ?D)\<^sup>*" by simp
  from resolveDependencyOrder_cycle[OF n r cyc]
  have "\<exists>c. resolveDependencyOrder [''A'', ''B''] ?D
                = Inl (Errorf (''cycle detected in dependencies involving '' @ c))" by blast
  moreover have "resolveDependencyOrder [''A'', ''B''] ?D
        = Inl (Errorf ''cycle detected in dependencies involving A'')"
    by (simp add: resolveDependencyOrder_rev empty_dfs_def lookup_deps_def visit.simps)
  ultimately show ?thesis using n r cyc by blast
qed

text \<open>
  C10 (amended). When the unit names are distinct and the dependency lists have no cycle,
  and some app lists a dependency \<open>x\<close> that is no app's name, then
  \<^verbatim>\<open>resolveAppDependencies\<close> returns without error; \<open>x\<close> is in the computed ordering;
  every name of the ordering that is no app's name yields the app at index 0; so the
  result is longer than the input and holds a duplicate. (The service resolver is the
  same text: \<open>resolveServiceDependencies_out_of_group\<close>.)
\<close>

theorem resolveAppDependencies_out_of_group:
  assumes "distinct (map app_Name apps)"
    and "\<forall>c. (c, c) \<notin> (dep_edge (unit_graph app_Name app_DependsOn apps))\<^sup>+"
    and "a \<in> set apps" and "x \<in> set (app_DependsOn a)"
    and "x \<notin> set (map app_Name apps)"
  shows "\<exists>sortedNames result.
           resolveDependencyOrder (map app_Name apps)
             (unit_graph app_Name app_DependsOn apps) = Inr sortedNames
         \<and> resolveAppDependencies apps = Inr result
         \<and> x \<in> set sortedNames
         \<and> length result = length sortedNames
         \<and> (\<forall>i < length sortedNames.
               sortedNames ! i \<notin> set (map app_Name apps) \<longrightarrow> result ! i = apps ! 0)
         \<and> length apps < length result
         \<and> \<not> distinct result"
  unfolding resolveAppDependencies_def
  using assms by (rule resolve_units_out_of_group)

theorem resolveAppDependencies_out_of_group_witness:
  "distinct (map app_Name [app_named ''web'' [''db'']])
   \<and> (\<forall>c. (c, c) \<notin> (dep_edge (unit_graph app_Name app_DependsOn
                                   [app_named ''web'' [''db'']]))\<^sup>+)
   \<and> app_named ''web'' [''db''] \<in> set [app_named ''web'' [''db'']]
   \<and> ''db'' \<in> set (app_DependsOn (app_named ''web'' [''db'']))
   \<and> ''db'' \<notin> set (map app_Name [app_named ''web'' [''db'']])
   \<and> resolveAppDependencies [app_named ''web'' [''db'']]
        = Inr [app_named ''web'' [''db''], app_named ''web'' [''db'']]
   \<and> (\<exists>result. resolveAppDependencies [app_named ''web'' [''db'']] = Inr result
         \<and> length [app_named ''web'' [''db'']] < length result \<and> \<not> distinct result)"
proof -
  let ?apps = "[app_named ''web'' [''db'']]"
  have h1: "distinct (map app_Name ?apps)" by simp
  have edges: "dep_edge (unit_graph app_Name app_DependsOn ?apps) = {(''web'', ''db'')}"
    by (auto simp: dep_edge_def unit_graph_def lookup_deps_def app_named_def split: if_splits)
  have h2: "\<forall>c. (c, c) \<notin> (dep_edge (unit_graph app_Name app_DependsOn ?apps))\<^sup>+"
    unfolding edges
  proof (intro allI notI)
    fix c :: string
    assume "(c, c) \<in> {(''web'', ''db'')}\<^sup>+"
    then obtain z where "(c, z) \<in> {(''web'', ''db'')}" and "(z, c) \<in> {(''web'', ''db'')}\<^sup>*"
      by (meson tranclD)
    then have "(''db'', ''web'') \<in> {(''web'', ''db'')}\<^sup>*" by simp
    then show False by (auto elim: converse_rtranclE)
  qed
  have h3: "app_named ''web'' [''db''] \<in> set ?apps" by simp
  have h4: "''db'' \<in> set (app_DependsOn (app_named ''web'' [''db'']))"
    by (simp add: app_named_def)
  have h5: "''db'' \<notin> set (map app_Name ?apps)" by (simp add: app_named_def)
  have v: "resolveAppDependencies ?apps = Inr [app_named ''web'' [''db''], app_named ''web'' [''db'']]"
    by (simp add: resolveAppDependencies_def resolve_units_def unit_graph_def unit_index_def
        resolveDependencyOrder_rev empty_dfs_def lookup_deps_def visit.simps app_named_def)
  show ?thesis
    using h1 h2 h3 h4 h5 v resolveAppDependencies_out_of_group[OF h1 h2 h3 h4 h5]
    by auto
qed

text \<open>
  C10 as stated fails: an app that also depends on itself gets the cycle error although it
  lists the out-of-group name \<^verbatim>\<open>db\<close>; and with two apps of one name the result is
  neither longer than the input nor holds a duplicate.
\<close>

theorem resolveAppDependencies_out_of_group_counterexample:
  "''db'' \<in> set (app_DependsOn (app_named ''web'' [''db'', ''web'']))
   \<and> ''db'' \<notin> set (map app_Name [app_named ''web'' [''db'', ''web'']])
   \<and> resolveAppDependencies [app_named ''web'' [''db'', ''web'']]
        = Inl (Errorf ''cycle detected in dependencies involving web'')
   \<and> ''db'' \<in> set (app_DependsOn (app_named ''web'' [''db'']))
   \<and> ''db'' \<notin> set (map app_Name [app_named ''web'' [], app_named ''web'' [''db'']])
   \<and> resolveAppDependencies [app_named ''web'' [], app_named ''web'' [''db'']]
        = Inr [app_named ''web'' [''db''], app_named ''web'' []]"
  by (simp add: resolveAppDependencies_def resolve_units_def unit_graph_def unit_index_def
      resolveDependencyOrder_rev empty_dfs_def lookup_deps_def visit.simps app_named_def)

text \<open>
  C8 (amended). \<^verbatim>\<open>Validate\<close> accepts no configuration in which a service's dependency
  is not the name of a declared service, or an app's dependency is not the name of a
  declared service or app; so a dependency on a unit declared nowhere is always rejected.
  For a configuration that passes the checks that do not concern dependencies and in
  which every dependency on a declared unit names the dependent itself or a unit declared
  before it, \<^verbatim>\<open>Validate\<close> accepts exactly when every service dependency names a declared
  service and every app dependency names a declared service or app, and any error it
  returns is the undefined-dependency error naming a unit and one of its dependencies that
  is declared nowhere among the units it may depend on.
\<close>

theorem Validate_dependencies:
  "(Validate config = None \<longrightarrow> deps_declared config)
   \<and> (well_formed config \<and> declared_first config \<longrightarrow>
        (Validate config = None \<longleftrightarrow> deps_declared config)
        \<and> (\<forall>e. Validate config = Some e \<longrightarrow> undeclared_dependency_error config e))"
proof (intro conjI impI allI)
  assume "Validate config = None"
  then show "deps_declared config"
    using Validate_None deps_resolved_declared by blast
next
  assume h: "well_formed config \<and> declared_first config"
  show "Validate config = None \<longleftrightarrow> deps_declared config"
    using h Validate_None deps_resolved_declared deps_declared_resolved by blast
next
  fix e
  assume "well_formed config \<and> declared_first config" "Validate config = Some e"
  then show "undeclared_dependency_error config e"
    using Validate_undeclared by blast
qed

theorem Validate_dependencies_witness:
  "well_formed (example_config [service_named ''db'' []] [app_named ''web'' [''db'', ''web'']])
   \<and> declared_first (example_config [service_named ''db'' []] [app_named ''web'' [''db'', ''web'']])
   \<and> Validate (example_config [service_named ''db'' []] [app_named ''web'' [''db'', ''web'']]) = None
   \<and> deps_declared (example_config [service_named ''db'' []] [app_named ''web'' [''db'', ''web'']])
   \<and> well_formed (example_config [service_named ''db'' [''ghost'']] [app_named ''web'' [''db'']])
   \<and> declared_first (example_config [service_named ''db'' [''ghost'']] [app_named ''web'' [''db'']])
   \<and> Validate (example_config [service_named ''db'' [''ghost'']] [app_named ''web'' [''db'']])
        = Some (Errorf ''service db depends on undefined service: ghost'')
   \<and> undeclared_dependency_error
        (example_config [service_named ''db'' [''ghost'']] [app_named ''web'' [''db'']])
        (Errorf ''service db depends on undefined service: ghost'')"
proof -
  let ?c = "example_config [service_named ''db'' []] [app_named ''web'' [''db'', ''web'']]"
  let ?d = "example_config [service_named ''db'' [''ghost'']] [app_named ''web'' [''db'']]"
  have wc: "well_formed ?c" and wd: "well_formed ?d"
    by (simp_all add: well_formed_def example_config_def service_named_def app_named_def
        validate_ssl_def)
  have fc: "declared_first ?c" and fd: "declared_first ?d"
    by (simp_all add: declared_first_def example_config_def service_named_def app_named_def)
  have vc: "Validate ?c = None"
    by (simp add: Validate_def example_config_def service_named_def app_named_def validate_ssl_def)
  have vd: "Validate ?d = Some (Errorf ''service db depends on undefined service: ghost'')"
    by (simp add: Validate_def example_config_def service_named_def app_named_def)
  show ?thesis
    using wc wd fc fd vc vd Validate_dependencies[of ?c] Validate_dependencies[of ?d]
    by blast
qed

text \<open>
  C8 as stated fails: the app \<^verbatim>\<open>web\<close> is declared, yet the service \<^verbatim>\<open>db\<close> that depends
  on it is rejected.
\<close>

theorem Validate_dependencies_counterexample:
  "''web'' \<in> set (svc_DependsOn (service_named ''db'' [''web'']))
   \<and> ''web'' \<in> declared (example_config [service_named ''db'' [''web'']] [app_named ''web'' []])
   \<and> Validate (example_config [service_named ''db'' [''web'']] [app_named ''web'' []])
        = Some (Errorf ''service db depends on undefined service: web'')"
  by (simp add: Validate_def example_config_def service_named_def app_named_def declared_def)



end
